theory Spec2Isabelle
  imports Main "HOL-Library.Char_ord" "HOL-Library.List_Lexorder" "HOL-Library.Product_Lexorder"
    "HOL-Library.Sublist" "HOL-Library.Multiset"
begin

section \<open>code2llm: a codebase rendered as one Markdown document\<close>

text \<open>
  The program (\<^verbatim>\<open>src/code2llm.py\<close>) walks a directory twice, once to build an annotated
  tree and once to collect the files whose contents are embedded, and writes one document.

  Conventions of the embedding.
  \<^item> Text is modelled by its UTF-8 bytes (\<open>string\<close>, a list of 8-bit characters). Python
    compares \<^verbatim>\<open>str\<close> by code point; on UTF-8 encodings this is the bytewise order of
    \<open>Char_ord\<close> and \<open>List_Lexorder\<close>. A file name is the list of its bytes; a name
    that is not UTF-8 is one whose text does not encode, and a run that has such a name in
    its tree ends before it sorts the collected paths.
  \<^item> A path under the target directory is modelled by the list of its components relative
    to the target, paired with the entry the file system holds there. Python orders
    \<^verbatim>\<open>Path\<close> objects by their component lists, which is the order of \<open>List_Lexorder\<close>
    on \<open>string list\<close>.
  \<^item> The file system is a finite tree. A symbolic link carries what following it yields
    (\<open>None\<close> for a link that does not resolve); cyclic links are represented by their finite
    unfolding up to the point where the operating system gives up.
  \<^item> What the libraries and the operating system decide is a parameter of the model
    (record \<open>env\<close>): the resolution of a path string, which paths name the output
    destination, what may be read and written, the buffering of the output stream, the
    UTF-8 codec, and the compiler of ignore rules (\<^verbatim>\<open>pathspec\<close>).
  \<^item> The run itself changes the file system at one place: opening the destination creates
    or truncates it. What is read afterwards (the context file, the collected files) sees
    that file as the run has left it so far.
\<close>

subsection \<open>Strings\<close>

definition nl :: string where
  "nl = [CHR 0x0A]"

text \<open>\<^verbatim>\<open>sep.join(xs)\<close>\<close>

fun join :: "string \<Rightarrow> string list \<Rightarrow> string" where
  "join sep [] = []"
| "join sep [x] = x"
| "join sep (x # y # ys) = x @ sep @ join sep (y # ys)"

text \<open>\<^verbatim>\<open>s.rfind(c)\<close>: the highest index of \<open>c\<close>, or \<open>-1\<close>.\<close>

definition rfind :: "char \<Rightarrow> string \<Rightarrow> int" where
  "rfind c s =
     (if c \<in> set s then int (length s) - 1 - int (length (takeWhile (\<lambda>x. x \<noteq> c) (rev s)))
      else - 1)"

text \<open>\<^verbatim>\<open>s.lstrip(c)\<close> for a single character \<open>c\<close>.\<close>

definition lstrip :: "char \<Rightarrow> string \<Rightarrow> string" where
  "lstrip c s = dropWhile (\<lambda>x. x = c) s"

text \<open>
  \<^verbatim>\<open>PurePath.suffix\<close> on the final component:
  \<^verbatim>\<open>i = name.rfind('.'); name[i:] if 0 < i < len(name) - 1 else ''\<close>.
\<close>

definition path_suffix :: "string \<Rightarrow> string" where
  "path_suffix nm =
     (let i = rfind (CHR ''.'') nm
      in if 0 < i \<and> i < int (length nm) - 1 then drop (nat i) nm else [])"

text \<open>\<^verbatim>\<open>str(rel_path)\<close>\<close>

definition path_str :: "string list \<Rightarrow> string" where
  "path_str p = join ''/'' p"

text \<open>The constants of the diagram, as UTF-8.\<close>

definition conn_last :: string where
  "conn_last = [CHR 0xE2, CHR 0x94, CHR 0x94, CHR 0xE2, CHR 0x94, CHR 0x80,
                CHR 0xE2, CHR 0x94, CHR 0x80, CHR 0x20]"

definition conn_mid :: string where
  "conn_mid = [CHR 0xE2, CHR 0x94, CHR 0x9C, CHR 0xE2, CHR 0x94, CHR 0x80,
               CHR 0xE2, CHR 0x94, CHR 0x80, CHR 0x20]"

definition ext_last :: string where
  "ext_last = ''    ''"

definition ext_mid :: string where
  "ext_mid = [CHR 0xE2, CHR 0x94, CHR 0x82, CHR 0x20, CHR 0x20, CHR 0x20]"

definition dir_icon :: string where
  "dir_icon = [CHR 0xF0, CHR 0x9F, CHR 0x93, CHR 0x81, CHR 0x20]"

definition file_icon :: string where
  "file_icon = [CHR 0xF0, CHR 0x9F, CHR 0x93, CHR 0x84, CHR 0x20]"

subsection \<open>The file system\<close>

datatype fsnode =
    File string
  | Dir "(string \<times> fsnode) list"
  | Symlink "fsnode option"

text \<open>Following a chain of links; a link that does not resolve is returned as it is.\<close>

fun follow :: "fsnode \<Rightarrow> fsnode" where
  "follow (Symlink (Some t)) = follow t"
| "follow e = e"

text \<open>\<^verbatim>\<open>Path.is_dir()\<close>, \<^verbatim>\<open>Path.is_file()\<close> (both follow links) and
  \<^verbatim>\<open>Path.is_symlink()\<close> (which does not).\<close>

definition path_is_dir :: "fsnode \<Rightarrow> bool" where
  "path_is_dir e = (case follow e of Dir _ \<Rightarrow> True | _ \<Rightarrow> False)"

definition path_is_file :: "fsnode \<Rightarrow> bool" where
  "path_is_file e = (case follow e of File _ \<Rightarrow> True | _ \<Rightarrow> False)"

definition path_is_symlink :: "fsnode \<Rightarrow> bool" where
  "path_is_symlink e = (case e of Symlink _ \<Rightarrow> True | _ \<Rightarrow> False)"

text \<open>
  \<^verbatim>\<open>Path.stat().st_size\<close> (follows links). The program calls it only behind
  \<^verbatim>\<open>is_file()\<close> (line 21) or after directories and links have been skipped (line 103),
  so only the \<open>File\<close> case is ever evaluated.
\<close>

definition st_size :: "fsnode \<Rightarrow> int" where
  "st_size e = (case follow e of File bs \<Rightarrow> int (length bs) | _ \<Rightarrow> 0)"

text \<open>\<^verbatim>\<open>Path.iterdir()\<close>, in the order the file system enumerates. The program calls it
  only on the target (checked in \<open>main\<close>) and on entries for which \<^verbatim>\<open>is_dir()\<close> holds.\<close>

definition iterdir :: "fsnode \<Rightarrow> (string \<times> fsnode) list" where
  "iterdir d = (case follow d of Dir es \<Rightarrow> es | _ \<Rightarrow> [])"

text \<open>The bytes \<^verbatim>\<open>Path.read_text\<close> reads before decoding.\<close>

definition file_bytes :: "fsnode \<Rightarrow> string" where
  "file_bytes e = (case follow e of File bs \<Rightarrow> bs | _ \<Rightarrow> [])"

text \<open>
  The entry at a relative path, as \<^verbatim>\<open>lstat\<close> finds it: links in the middle of the path
  are followed, the last component is not.
\<close>

fun lstat :: "fsnode \<Rightarrow> string list \<Rightarrow> fsnode option" where
  "lstat d [] = Some d"
| "lstat d (n # p) =
     (case map_of (iterdir d) n of None \<Rightarrow> None
      | Some e \<Rightarrow> if p = [] then Some e else if path_is_dir e then lstat (follow e) p else None)"

text \<open>The entry at a relative path when no link is followed on the way.\<close>

fun lstat_real :: "fsnode \<Rightarrow> string list \<Rightarrow> fsnode option" where
  "lstat_real d [] = Some d"
| "lstat_real (Dir es) (n # p) =
     (case map_of es n of None \<Rightarrow> None | Some e \<Rightarrow> lstat_real e p)"
| "lstat_real _ (n # p) = None"

text \<open>A directory never lists a name twice.\<close>

fun wf_fs :: "fsnode \<Rightarrow> bool" where
  "wf_fs (File bs) = True"
| "wf_fs (Dir es) = (distinct (map fst es) \<and> list_all (\<lambda>(n, e). wf_fs e) es)"
| "wf_fs (Symlink None) = True"
| "wf_fs (Symlink (Some t)) = wf_fs t"

text \<open>
  The order of a listing is the file system's choice. \<open>sort_listing\<close> puts every listing
  in order of name; two trees hold the same entries, listed in whatever order, when they
  are well formed and agree once their listings are sorted.
\<close>

fun sort_listing :: "fsnode \<Rightarrow> fsnode" where
  "sort_listing (File bs) = File bs"
| "sort_listing (Dir es) = Dir (sort_key fst (map (\<lambda>(n, e). (n, sort_listing e)) es))"
| "sort_listing (Symlink None) = Symlink None"
| "sort_listing (Symlink (Some t)) = Symlink (Some (sort_listing t))"

definition same_entries :: "fsnode \<Rightarrow> fsnode \<Rightarrow> bool" where
  "same_entries x y \<longleftrightarrow> wf_fs x \<and> wf_fs y \<and> sort_listing x = sort_listing y"

subsection \<open>The tree builder\<close>

text \<open>
  \<^verbatim>\<open>class TreeNode\<close> (lines 7-13). The builder assigns to \<^verbatim>\<open>child.ignored\<close> after
  construction (line 25); the model rebuilds the node with the new flag (\<open>set_ignored\<close>).
\<close>

datatype TreeNode = TreeNode (name: string) (is_dir: bool) (children: "TreeNode list")
  (ignored: bool) (size_exceeded: bool)

fun set_ignored :: "bool \<Rightarrow> TreeNode \<Rightarrow> TreeNode" where
  "set_ignored b (TreeNode n d cs i se) = TreeNode n d cs b se"

lemma size_follow_le: "size (follow e) \<le> size e"
  by (induction e rule: follow.induct) auto

lemma size_entry_less: "(n, e) \<in> set es \<Longrightarrow> size e < size (Dir es)"
  by (induction es) auto

lemma size_iterdir_less: "(n, e) \<in> set (iterdir d) \<Longrightarrow> size (follow e) < size d"
proof -
  assume a: "(n, e) \<in> set (iterdir d)"
  then obtain es where d: "follow d = Dir es" and m: "(n, e) \<in> set es"
    by (cases "follow d") (auto simp: iterdir_def)
  have "size (follow e) \<le> size e" by (rule size_follow_le)
  also have "size e < size (Dir es)" using m by (rule size_entry_less)
  also have "size (Dir es) \<le> size d" using size_follow_le [of d] d by simp
  finally show ?thesis .
qed

text \<open>
  \<^verbatim>\<open>build_directory_tree(root, ignore_spec, max_size, target_dir)\<close> (lines 15-33). The
  path \<^verbatim>\<open>root\<close> is given by its name, its components relative to \<^verbatim>\<open>target_dir\<close>
  and the directory the file system holds there; \<^verbatim>\<open>entry.relative_to(target_dir)\<close> is
  then \<open>root_rel @ [entry_name]\<close>. The matcher \<^verbatim>\<open>ignore_spec.match_file\<close> is a predicate
  on relative paths.
\<close>

function build_directory_tree ::
  "string \<Rightarrow> string list \<Rightarrow> fsnode \<Rightarrow> (string list \<Rightarrow> bool) \<Rightarrow> int \<Rightarrow> TreeNode" where
  "build_directory_tree root_name root_rel root ignore_spec max_size =
     TreeNode root_name True
       (map (\<lambda>(entry_name, entry).
               let rel_path = root_rel @ [entry_name];
                   ign = ignore_spec rel_path;
                   exceeded = (path_is_file entry \<and> st_size entry > max_size)
               in if path_is_dir entry then
                    set_ignored ign
                      (build_directory_tree entry_name rel_path (follow entry) ignore_spec max_size)
                  else TreeNode entry_name False [] ign exceeded)
            (iterdir root))
       False False"
  by pat_completeness auto
termination
  by (relation "measure (\<lambda>(n, r, d, s, m). size d)") (auto intro: size_iterdir_less)

declare build_directory_tree.simps [simp del]

text \<open>The node that one pass of the loop body (lines 19-31) appends for an entry.\<close>

definition build_entry ::
  "(string list \<Rightarrow> bool) \<Rightarrow> int \<Rightarrow> string list \<Rightarrow> string \<times> fsnode \<Rightarrow> TreeNode" where
  "build_entry spec mx rel ne =
     (if path_is_dir (snd ne) then
        set_ignored (spec (rel @ [fst ne]))
          (build_directory_tree (fst ne) (rel @ [fst ne]) (follow (snd ne)) spec mx)
      else TreeNode (fst ne) False [] (spec (rel @ [fst ne]))
             (path_is_file (snd ne) \<and> st_size (snd ne) > mx))"

subsection \<open>Rendering the tree\<close>

text \<open>
  \<^verbatim>\<open>sorted(xs, key=key, reverse=True)\<close>: Python reverses the list, sorts it stably in
  ascending order and reverses the result, so that elements with equal keys keep their
  original order.
\<close>

definition sort_desc :: "('a \<Rightarrow> 'k::linorder) \<Rightarrow> 'a list \<Rightarrow> 'a list" where
  "sort_desc key xs = rev (sort_key key (rev xs))"

lemma size_child_less: "c \<in> set cs \<Longrightarrow> size c < size (TreeNode n d cs i se)"
  by (induction cs) auto

lemma size_children_less: "c \<in> set (children node) \<Longrightarrow> size c < size node"
  using size_child_less [of c "children node" "name node" "is_dir node" "ignored node"
      "size_exceeded node"]
  by simp

lemma set_sort_desc [simp]: "set (sort_desc key xs) = set xs"
  by (simp add: sort_desc_def)

text \<open>\<^verbatim>\<open>format_tree(node, prefix, is_last)\<close> (lines 35-61).\<close>

function format_tree :: "TreeNode \<Rightarrow> string \<Rightarrow> bool \<Rightarrow> string" where
  "format_tree node pre is_last =
     (let connector = (if is_last then conn_last else conn_mid);
          result = pre @ connector;
          result = (if is_dir node then result @ dir_icon @ name node
                    else result @ file_icon @ name node);
          result = (if ignored node \<or> (\<not> is_dir node \<and> size_exceeded node) then
                      (let reasons = [];
                           reasons = (if ignored node then reasons @ [''ignored''] else reasons);
                           reasons = (if size_exceeded node then reasons @ [''size exceeded'']
                                      else reasons)
                       in result @ '' ('' @ join '', '' reasons @ '')'')
                    else result);
          result = result @ nl
      in if is_dir node then
           (let cs = sort_desc (\<lambda>x. (is_dir x, name x)) (children node);
                extension = (if is_last then ext_last else ext_mid);
                new_prefix = pre @ extension
            in result @ concat (map (\<lambda>(i, child). format_tree child new_prefix (i = length cs - 1))
                                    (enumerate 0 cs)))
         else result)"
  by pat_completeness auto
termination
proof (relation "measure (\<lambda>(n, p, l). size n)")
  show "wf (measure (\<lambda>(n, p, l). size n))" by simp
next
  fix node :: TreeNode and cs ic and i :: nat and child
  assume cs: "cs = sort_desc (\<lambda>x. (is_dir x, name x)) (children node)"
    and ic: "ic \<in> set (enumerate 0 cs)" "(i, child) = ic"
  from ic have "child \<in> set cs"
    by (auto simp: in_set_enumerate_eq)
  with cs have "child \<in> set (children node)" by simp
  then have "size child < size node"
    by (rule size_children_less)
  then show "((child, pre1, i = length cs - 1), (node, pre2, l)) \<in> measure (\<lambda>(n, p, l). size n)"
    for pre1 pre2 :: string and l :: bool
    by simp
qed

declare format_tree.simps [simp del]

text \<open>
  The two parts of what \<open>format_tree\<close> returns: the line of the node itself (lines 36-52)
  and the lines of its children (lines 54-59).
\<close>

definition annotation :: "TreeNode \<Rightarrow> string" where
  "annotation node =
     (if ignored node \<or> (\<not> is_dir node \<and> size_exceeded node) then
        '' ('' @ join '', '' ((if ignored node then [''ignored''] else []) @
                             (if size_exceeded node then [''size exceeded''] else [])) @ '')''
      else [])"

definition format_line :: "TreeNode \<Rightarrow> string \<Rightarrow> bool \<Rightarrow> string" where
  "format_line node pre is_last =
     pre @ (if is_last then conn_last else conn_mid) @
     (if is_dir node then dir_icon else file_icon) @ name node @ annotation node @ nl"

definition format_children :: "TreeNode \<Rightarrow> string \<Rightarrow> bool \<Rightarrow> string" where
  "format_children node pre is_last =
     (let cs = sort_desc (\<lambda>x. (is_dir x, name x)) (children node)
      in concat (map (\<lambda>(i, child). format_tree child (pre @ (if is_last then ext_last else ext_mid))
                                     (i = length cs - 1))
                     (enumerate 0 cs)))"

text \<open>The node of a tree at a relative path: at each directory node, the first child with
  the name.\<close>

fun node_at :: "TreeNode \<Rightarrow> string list \<Rightarrow> TreeNode option" where
  "node_at t [] = Some t"
| "node_at t (n # p) =
     (if is_dir t then
        (case find (\<lambda>c. name c = n) (children t) of None \<Rightarrow> None | Some c \<Rightarrow> node_at c p)
      else None)"

subsection \<open>Collecting the files\<close>

text \<open>
  \<^verbatim>\<open>target_dir.rglob('*')\<close>: every entry below the directory, descending into
  directories but not into links to directories. The order of the result is the
  library's and the file system's; the program sorts before it writes.
\<close>

fun rglob :: "fsnode \<Rightarrow> string list \<Rightarrow> (string list \<times> fsnode) list" where
  "rglob (Dir es) rel =
     map (\<lambda>(n, e). (rel @ [n], e)) es @
     concat (map (\<lambda>(n, e). case e of Dir _ \<Rightarrow> rglob e (rel @ [n]) | _ \<Rightarrow> []) es)"
| "rglob _ rel = []"

declare rglob.simps [simp del]

text \<open>The loop of lines 95-106, over the paths that \<^verbatim>\<open>rglob\<close> yields.\<close>

fun collect ::
  "(string list \<Rightarrow> bool) \<Rightarrow> int \<Rightarrow> (string list \<times> fsnode) list \<Rightarrow> (string list \<times> fsnode) list"
  where
  "collect ignore_spec max_size [] = []"
| "collect ignore_spec max_size ((rel_path, entry) # rest) =
     (if path_is_dir entry \<or> path_is_symlink entry then collect ignore_spec max_size rest
      else if ignore_spec rel_path then collect ignore_spec max_size rest
      else if st_size entry > max_size then collect ignore_spec max_size rest
      else (rel_path, entry) # collect ignore_spec max_size rest)"

definition included_files ::
  "fsnode \<Rightarrow> (string list \<Rightarrow> bool) \<Rightarrow> int \<Rightarrow> (string list \<times> fsnode) list" where
  "included_files target ignore_spec max_size = collect ignore_spec max_size (rglob target [])"

subsection \<open>The run\<close>

text \<open>The parsed command line (lines 64-79); \<^verbatim>\<open>--output\<close> is the field \<open>output_path\<close>.\<close>

record args =
  target_dir :: string
  ignore_file :: string
  output_path :: string
  max_size :: int
  context_file :: "string option"

text \<open>
  The exceptions that end a run. \<open>OSError\<close> stands for a failure of the operating system
  other than the three named ones (permission denied, an entry that vanished, an
  input/output error); \<open>IgnoreRulesError\<close> for what the compiler of ignore rules raises;
  \<open>OutputOpenError\<close> for a failure to open the destination. \<open>FileNotFoundError\<close> is what
  opening a path raises at which nothing is found; a path that leads through a file is
  such a path here, although Python names its exception \<^verbatim>\<open>NotADirectoryError\<close>.
\<close>

datatype error =
    FileNotFoundError
  | IsADirectoryError
  | NotADirectoryError
  | OSError
  | UnicodeDecodeError
  | UnicodeEncodeError
  | IgnoreRulesError
  | OutputOpenError

text \<open>
  What the run reads from outside the program.
  \<^item> \<open>lookup p\<close>: the entry the operating system finds at the path string \<open>p\<close> when the
    run starts, resolved as the system resolves it (a relative path against the current
    working directory); \<open>None\<close> when nothing is there.
  \<^item> \<open>resolved_name p\<close>: the last component of \<^verbatim>\<open>Path(p).resolve()\<close>.
  \<^item> \<open>walk_fails p\<close>: whether listing a directory or reading the status of an entry raises
    somewhere below the directory at \<open>p\<close> during the two walks.
  \<^item> \<open>writable p\<close>: whether \<^verbatim>\<open>open(p, 'w')\<close> succeeds.
  \<^item> \<open>read_fails p\<close>: whether opening or reading what exists at the path string \<open>p\<close> raises;
    \<open>read_fails_at t rel\<close>: the same for the file collected at the relative path \<open>rel\<close>
    below the directory at \<open>t\<close>.
  \<^item> \<open>same_file p q\<close>: whether, once \<^verbatim>\<open>open(q, 'w')\<close> has created or truncated its file,
    the path string \<open>p\<close> names that file (the same place written differently, a link to it).
    Equal strings name the same file whatever this says.
  \<^item> \<open>output_at q t rel\<close>: whether the file collected at the relative path \<open>rel\<close> below the
    directory at \<open>t\<close> is the file that \<^verbatim>\<open>open(q, 'w')\<close> truncates: the destination lies
    inside the target and existed before the run.
  \<^item> \<open>flushed out\<close>: how many bytes have reached the destination when the texts \<open>out\<close>
    have been written to the stream, one \<^verbatim>\<open>write\<close> each; the rest waits in the buffers
    of the stream until it is closed.
  \<^item> \<open>read_text bs\<close>: the text that reading the bytes \<open>bs\<close> in text mode as UTF-8 gives,
    \<open>None\<close> for \<^verbatim>\<open>UnicodeDecodeError\<close>.
  \<^item> \<open>from_lines bs\<close>: \<^verbatim>\<open>PathSpec.from_lines('gitwildmatch', f)\<close> on a file with the
    bytes \<open>bs\<close>, \<open>None\<close> when the lines do not decode or a pattern is invalid.
  \<^item> \<open>encodable s\<close>: whether the text \<open>s\<close> can be written to a UTF-8 stream. Python
    decodes the bytes of a file name that are not UTF-8 to lone surrogates, which do not
    encode: a text that contains such a name raises \<^verbatim>\<open>UnicodeEncodeError\<close> when written.
\<close>

record env =
  lookup :: "string \<Rightarrow> fsnode option"
  resolved_name :: "string \<Rightarrow> string"
  walk_fails :: "string \<Rightarrow> bool"
  writable :: "string \<Rightarrow> bool"
  read_fails :: "string \<Rightarrow> bool"
  read_fails_at :: "string \<Rightarrow> string list \<Rightarrow> bool"
  same_file :: "string \<Rightarrow> string \<Rightarrow> bool"
  output_at :: "string \<Rightarrow> string \<Rightarrow> string list \<Rightarrow> bool"
  flushed :: "string list \<Rightarrow> nat"
  read_text :: "string \<Rightarrow> string option"
  from_lines :: "string \<Rightarrow> (string list \<Rightarrow> bool) option"
  encodable :: "string \<Rightarrow> bool"

definition path_exists :: "env \<Rightarrow> string \<Rightarrow> bool" where
  "path_exists w p =
     (case lookup w p of None \<Rightarrow> False
      | Some e \<Rightarrow> (case follow e of Symlink _ \<Rightarrow> False | _ \<Rightarrow> True))"

text \<open>\<^verbatim>\<open>open(p, 'r')\<close> and reading all of it, before the destination is opened.\<close>

definition open_read :: "env \<Rightarrow> string \<Rightarrow> error + string" where
  "open_read w p =
     (case lookup w p of None \<Rightarrow> Inl FileNotFoundError
      | Some e \<Rightarrow> (case follow e of
                    File bs \<Rightarrow> if read_fails w p then Inl OSError else Inr bs
                  | Dir _ \<Rightarrow> if read_fails w p then Inl OSError else Inl IsADirectoryError
                  | Symlink _ \<Rightarrow> Inl FileNotFoundError))"

definition open_dir :: "env \<Rightarrow> string \<Rightarrow> error + fsnode" where
  "open_dir w p =
     (case lookup w p of None \<Rightarrow> Inl FileNotFoundError
      | Some e \<Rightarrow> (case follow e of
                    File _ \<Rightarrow> Inl NotADirectoryError
                  | Dir es \<Rightarrow> Inr (Dir es)
                  | Symlink _ \<Rightarrow> Inl FileNotFoundError))"

text \<open>Lines 82-89.\<close>

definition load_ignore_spec :: "env \<Rightarrow> args \<Rightarrow> error + (string list \<Rightarrow> bool)" where
  "load_ignore_spec w a =
     (if path_exists w (ignore_file a) then
        (case open_read w (ignore_file a) of
           Inl e \<Rightarrow> Inl e
         | Inr bs \<Rightarrow> (case from_lines w bs of
                       None \<Rightarrow> Inl IgnoreRulesError
                     | Some ignore_spec \<Rightarrow> Inr ignore_spec))
      else Inr (\<lambda>p. False))"

text \<open>
  The output stream (line 109) is modelled by the list of the texts written to it, one
  element for each \<^verbatim>\<open>write\<close>. While the stream is open the destination holds the part that
  has been flushed; when the \<^verbatim>\<open>with\<close> block is left, by its end or by an exception, it
  holds all of it.
\<close>

definition visible :: "env \<Rightarrow> string list \<Rightarrow> string" where
  "visible w out = take (flushed w out) (concat out)"

text \<open>
  \<^verbatim>\<open>out_file.write(s)\<close> for a text \<open>s\<close> that holds file names. The other texts the program
  writes are constants and text that was decoded from UTF-8, which always encode.
\<close>

definition stream_write :: "env \<Rightarrow> string list \<Rightarrow> string \<Rightarrow> error + string list" where
  "stream_write w out s = (if encodable w s then Inr (out @ [s]) else Inl UnicodeEncodeError)"

text \<open>
  Line 112, \<^verbatim>\<open>open(args.context_file, 'r')\<close> and \<^verbatim>\<open>cf.read()\<close> as bytes. It runs after
  line 109 has opened the destination: a context path that names the destination finds
  the file that was just created or truncated, with nothing written yet.
\<close>

definition open_context :: "env \<Rightarrow> args \<Rightarrow> string \<Rightarrow> error + string" where
  "open_context w a p =
     (if p = output_path a \<or> same_file w p (output_path a) then
        (if read_fails w p then Inl OSError else Inr (visible w []))
      else open_read w p)"

text \<open>
  Lines 111-113: what is written for the context, as a list of writes.
  \<^verbatim>\<open>if args.context_file:\<close> is false for the empty string too.
\<close>

definition context_section :: "env \<Rightarrow> args \<Rightarrow> error + string list" where
  "context_section w a =
     (case context_file a of
        None \<Rightarrow> Inr []
      | Some p \<Rightarrow>
          if p = [] then Inr []
          else (case open_context w a p of
                  Inl e \<Rightarrow> Inl e
                | Inr bs \<Rightarrow> (case read_text w bs of
                              None \<Rightarrow> Inl UnicodeDecodeError
                            | Some txt \<Rightarrow> Inr [''# Context Overview'' @ nl @ nl @ txt @ nl @ nl])))"

text \<open>
  Line 126, \<^verbatim>\<open>path.read_text(encoding='utf-8')\<close> on a collected file, when \<open>out\<close> has been
  written. The bytes are those the file had when it was collected, unless the file is the
  destination, which line 109 has truncated and which holds what has been flushed.
\<close>

definition read_collected ::
  "env \<Rightarrow> args \<Rightarrow> string list \<Rightarrow> string list \<Rightarrow> fsnode \<Rightarrow> error + string" where
  "read_collected w a out rel_path entry =
     (if read_fails_at w (target_dir a) rel_path then Inl OSError
      else (case read_text w (if output_at w (output_path a) (target_dir a) rel_path
                              then visible w out else file_bytes entry) of
              None \<Rightarrow> Inl UnicodeDecodeError
            | Some content \<Rightarrow> Inr content))"

text \<open>
  The loop of lines 123-133 over the sorted paths; \<open>out\<close> is what has been written. The
  result is the exception that ended the loop, if any, and what had been written by then.
  \<^verbatim>\<open>except UnicodeDecodeError: continue\<close> is the only handler.
\<close>

fun write_files ::
  "env \<Rightarrow> args \<Rightarrow> string list \<Rightarrow> (string list \<times> fsnode) list \<Rightarrow> error option \<times> string list"
  where
  "write_files w a out [] = (None, out)"
| "write_files w a out ((rel_path, entry) # rest) =
     (case read_collected w a out rel_path entry of
        Inl e \<Rightarrow> if e = UnicodeDecodeError then write_files w a out rest else (Some e, out)
      | Inr content \<Rightarrow>
          (case stream_write w out (''## File: '' @ path_str rel_path @ nl) of
             Inl e \<Rightarrow> (Some e, out)
           | Inr out1 \<Rightarrow>
               (case stream_write w out1
                       (''```'' @ lstrip (CHR ''.'') (path_suffix (last rel_path)) @ nl) of
                  Inl e \<Rightarrow> (Some e, out1)
                | Inr out2 \<Rightarrow>
                    write_files w a (out2 @ [content @ nl, ''```'' @ nl @ nl]) rest)))"

text \<open>
  The result of a run: the exception that ended it, if any, and what it did to the output
  destination. \<open>out_file = None\<close>: the destination was never opened. \<open>out_file = Some bs\<close>:
  it was opened for writing, which creates it or truncates it, and \<open>bs\<close> was written.
\<close>

record outcome =
  status :: "error option"
  out_file :: "string option"

text \<open>\<^verbatim>\<open>main()\<close> (lines 63-133).\<close>

definition main :: "env \<Rightarrow> args \<Rightarrow> outcome" where
  "main w a =
     (case load_ignore_spec w a of
        Inl e \<Rightarrow> \<lparr>status = Some e, out_file = None\<rparr>
      | Inr ignore_spec \<Rightarrow>
          (case open_dir w (target_dir a) of
             Inl e \<Rightarrow> \<lparr>status = Some e, out_file = None\<rparr>
           | Inr target \<Rightarrow>
               if walk_fails w (target_dir a) then \<lparr>status = Some OSError, out_file = None\<rparr>
               else
                 (let tree_root = build_directory_tree (resolved_name w (target_dir a)) [] target
                                    ignore_spec (max_size a);
                      included = included_files target ignore_spec (max_size a)
                  in if \<not> writable w (output_path a) then
                       \<lparr>status = Some OutputOpenError, out_file = None\<rparr>
                     else
                       (case context_section w a of
                          Inl e \<Rightarrow> \<lparr>status = Some e, out_file = Some []\<rparr>
                        | Inr ctx \<Rightarrow>
                            (let out = ctx @ [''# Codebase Structure'' @ nl @ nl, ''```'' @ nl]
                             in case stream_write w out (format_tree tree_root [] True) of
                                  Inl e \<Rightarrow> \<lparr>status = Some e, out_file = Some (concat out)\<rparr>
                                | Inr out \<Rightarrow>
                                    (let r = write_files w a
                                               (out @ [''```'' @ nl @ nl,
                                                       ''# File Contents'' @ nl @ nl])
                                               (sort_key fst included)
                                     in \<lparr>status = fst r,
                                         out_file = Some (concat (snd r))\<rparr>))))))"

text \<open>
  What one pass of the loop writes for a file whose text is \<open>content\<close> (lines 130-133), as
  four writes and as one text.
\<close>

definition block_chunks :: "string list \<Rightarrow> string \<Rightarrow> string list" where
  "block_chunks rel_path content =
     [''## File: '' @ path_str rel_path @ nl,
      ''```'' @ lstrip (CHR ''.'') (path_suffix (last rel_path)) @ nl,
      content @ nl,
      ''```'' @ nl @ nl]"

definition file_block :: "string list \<Rightarrow> string \<Rightarrow> string" where
  "file_block rel_path content =
     ''## File: '' @ path_str rel_path @ nl @
     ''```'' @ lstrip (CHR ''.'') (path_suffix (last rel_path)) @ nl @
     content @ nl @
     ''```'' @ nl @ nl"

text \<open>
  What has been written when the loop starts (lines 113-122), for the writes \<open>ctx\<close> of the
  context section.
\<close>

definition preamble :: "string list \<Rightarrow> TreeNode \<Rightarrow> string list" where
  "preamble ctx tree_root =
     ctx @ [''# Codebase Structure'' @ nl @ nl, ''```'' @ nl, format_tree tree_root [] True,
            ''```'' @ nl @ nl, ''# File Contents'' @ nl @ nl]"

text \<open>
  The files for which the loop writes a block, each with the text it read, in the order
  of the loop.
\<close>

fun written_blocks ::
  "env \<Rightarrow> args \<Rightarrow> string list \<Rightarrow> (string list \<times> fsnode) list \<Rightarrow> (string list \<times> string) list"
  where
  "written_blocks w a out [] = []"
| "written_blocks w a out ((rel_path, entry) # rest) =
     (case read_collected w a out rel_path entry of
        Inl e \<Rightarrow> if e = UnicodeDecodeError then written_blocks w a out rest else []
      | Inr content \<Rightarrow>
          (rel_path, content) #
          written_blocks w a (out @ block_chunks rel_path content) rest)"

text \<open>
  The same for a loop that reads every file as it was collected: the blocks of a run in
  which no collected file is the destination.
\<close>

fun content_blocks :: "env \<Rightarrow> (string list \<times> fsnode) list \<Rightarrow> (string list \<times> string) list" where
  "content_blocks w [] = []"
| "content_blocks w ((rel_path, entry) # rest) =
     (case read_text w (file_bytes entry) of
        None \<Rightarrow> content_blocks w rest
      | Some content \<Rightarrow> (rel_path, content) # content_blocks w rest)"

text \<open>
  What the output destination holds after a run, given what it held before
  (\<open>None\<close>: nothing existed there).
\<close>

definition destination_after :: "string option \<Rightarrow> outcome \<Rightarrow> string option" where
  "destination_after before r = (case out_file r of None \<Rightarrow> before | Some bs \<Rightarrow> Some bs)"

subsection \<open>A sample run\<close>

definition ex_target :: fsnode where
  "ex_target = Dir [
     (''b.txt'', File ''bb''),
     (''a.txt'', File ''aaaaa''),
     (''big.py'', File ''0123456789''),
     (''secret.txt'', File ''s''),
     (''bin.dat'', File [CHR 0xFF]),
     (''sub'', Dir [(''x.py'', File ''x''), (''ln'', Symlink (Some (File ''t'')))]),
     (''dl'', Symlink (Some (Dir [(''in.txt'', File ''i'')])))]"

definition ex_siblings :: TreeNode where
  "ex_siblings = TreeNode ''d'' True
     [TreeNode ''b.txt'' False [] False False,
      TreeNode ''a.txt'' False [] False False,
      TreeNode ''sub'' True [] False False] False False"

definition ex_env :: env where
  "ex_env = \<lparr>
     lookup = (\<lambda>p. if p = ''proj'' then Some ex_target
                    else if p = ''.context.ignore'' then Some (File ''secret.txt'')
                    else if p = ''proj/.context.ignore'' then Some (File ''a.txt'')
                    else if p = ''ctx.md'' then Some (File ''hello'')
                    else None),
     resolved_name = (\<lambda>p. if p = ''proj'' then ''proj'' else []),
     walk_fails = (\<lambda>p. False),
     writable = (\<lambda>p. True),
     read_fails = (\<lambda>p. False),
     read_fails_at = (\<lambda>t rel. False),
     same_file = (\<lambda>p q. False),
     output_at = (\<lambda>q t rel. False),
     flushed = (\<lambda>out. 0),
     read_text = (\<lambda>bs. if list_all (\<lambda>c. of_char c < (128::nat)) bs then Some bs else None),
     from_lines = (\<lambda>bs. Some (\<lambda>p. path_str p = bs)),
     encodable = (\<lambda>s. True)\<rparr>"

definition ex_args :: args where
  "ex_args = \<lparr>target_dir = ''proj'', ignore_file = ''.context.ignore'',
     output_path = ''context.md'', max_size = 5, context_file = Some ''ctx.md''\<rparr>"

definition ex_args_missing :: args where
  "ex_args_missing = ex_args\<lparr>context_file := Some ''missing.md''\<rparr>"

definition ex_target_reordered :: fsnode where
  "ex_target_reordered = Dir [
     (''dl'', Symlink (Some (Dir [(''in.txt'', File ''i'')]))),
     (''sub'', Dir [(''ln'', Symlink (Some (File ''t''))), (''x.py'', File ''x'')]),
     (''bin.dat'', File [CHR 0xFF]),
     (''secret.txt'', File ''s''),
     (''big.py'', File ''0123456789''),
     (''a.txt'', File ''aaaaa''),
     (''b.txt'', File ''bb'')]"

definition ex_env_reordered :: env where
  "ex_env_reordered = ex_env\<lparr>lookup := (lookup ex_env)(''proj'' := Some ex_target_reordered)\<rparr>"

text \<open>
  A second run with the default arguments in a directory that holds the document of the
  first: the destination \<^verbatim>\<open>context.md\<close> is one of the collected files.
\<close>

definition ex_here :: fsnode where
  "ex_here = Dir [(''context.md'', File ''old''), (''a.txt'', File ''aaaaa'')]"

definition ex_defaults :: args where
  "ex_defaults = \<lparr>target_dir = ''.'', ignore_file = ''.context.ignore'',
     output_path = ''context.md'', max_size = 102400, context_file = None\<rparr>"

definition ex_env_here :: env where
  "ex_env_here = ex_env\<lparr>
     lookup := (\<lambda>p. if p = ''.'' then Some ex_here
                    else if p = ''context.md'' then Some (File ''old'')
                    else None),
     resolved_name := (\<lambda>p. ''work''),
     output_at := (\<lambda>q t rel. q = ''context.md'' \<and> t = ''.'' \<and> rel = [''context.md''])\<rparr>"

section \<open>Derived equations\<close>

subsection \<open>The builder and the renderer\<close>

lemma format_tree_eq:
  "format_tree node pre is_last =
     format_line node pre is_last @ (if is_dir node then format_children node pre is_last else [])"
  by (subst format_tree.simps) (simp add: format_line_def annotation_def format_children_def Let_def)

lemma build_directory_tree_eq:
  "build_directory_tree nm rel d spec mx =
     TreeNode nm True (map (build_entry spec mx rel) (iterdir d)) False False"
  by (subst build_directory_tree.simps)
     (simp add: build_entry_def Let_def case_prod_beta cong: map_cong)

lemma build_directory_tree_sel [simp]:
  "name (build_directory_tree nm rel d spec mx) = nm"
  "is_dir (build_directory_tree nm rel d spec mx) = True"
  "ignored (build_directory_tree nm rel d spec mx) = False"
  "size_exceeded (build_directory_tree nm rel d spec mx) = False"
  "children (build_directory_tree nm rel d spec mx) = map (build_entry spec mx rel) (iterdir d)"
  by (simp_all add: build_directory_tree_eq)

lemma set_ignored_sel [simp]:
  "name (set_ignored b t) = name t"
  "is_dir (set_ignored b t) = is_dir t"
  "children (set_ignored b t) = children t"
  "ignored (set_ignored b t) = b"
  "size_exceeded (set_ignored b t) = size_exceeded t"
  by (cases t; simp)+

lemma build_entry_sel [simp]:
  "name (build_entry spec mx rel (n, e)) = n"
  "is_dir (build_entry spec mx rel (n, e)) = path_is_dir e"
  "ignored (build_entry spec mx rel (n, e)) = spec (rel @ [n])"
  "size_exceeded (build_entry spec mx rel (n, e)) = (path_is_file e \<and> st_size e > mx)"
  "children (build_entry spec mx rel (n, e)) =
     (if path_is_dir e then map (build_entry spec mx (rel @ [n])) (iterdir (follow e)) else [])"
  by (auto simp: build_entry_def path_is_dir_def path_is_file_def split: fsnode.splits)

lemma build_directory_tree_cong_spec:
  "(\<And>p. p \<noteq> [] \<Longrightarrow> s1 p = s2 p) \<Longrightarrow>
   build_directory_tree nm rel d s1 mx = build_directory_tree nm rel d s2 mx"
proof (induction nm rel d s1 mx rule: build_directory_tree.induct)
  case (1 root_name root_rel root ignore_spec mx)
  have "build_entry ignore_spec mx root_rel ne = build_entry s2 mx root_rel ne"
    if "ne \<in> set (iterdir root)" for ne
  proof (cases ne)
    case (Pair n e)
    show ?thesis
    proof (cases "path_is_dir e")
      case True
      from "1.IH" [OF that Pair [symmetric] refl refl refl True] "1.prems"
      show ?thesis using True Pair by (simp add: build_entry_def "1.prems")
    next
      case False
      then show ?thesis using Pair by (simp add: build_entry_def "1.prems")
    qed
  qed
  then show ?case
    by (simp add: build_directory_tree_eq cong: map_cong)
qed

subsection \<open>Sorting in descending order\<close>

lemma mset_sort_desc [simp]: "mset (sort_desc key xs) = mset xs"
  by (simp add: sort_desc_def)

lemma length_sort_desc [simp]: "length (sort_desc key xs) = length xs"
  by (simp add: sort_desc_def)

lemma sort_desc_descending: "sorted_wrt (\<lambda>x y. key y \<le> key x) (sort_desc key xs)"
proof -
  have "sorted (map key (sort_key key (rev xs)))" by simp
  then have "sorted_wrt (\<lambda>x y. key x \<le> key y) (sort_key key (rev xs))"
    by (simp add: sorted_map)
  then show ?thesis
    by (simp add: sort_desc_def sorted_wrt_rev)
qed

lemma sort_desc_nth_le:
  "i < j \<Longrightarrow> j < length xs \<Longrightarrow> key (sort_desc key xs ! j) \<le> key (sort_desc key xs ! i)"
  using sort_desc_descending [of key xs]
  by (simp add: sorted_wrt_iff_nth_less)

subsection \<open>The run, case by case\<close>

lemma main_after_walk:
  assumes "load_ignore_spec w a = Inr spec" and "open_dir w (target_dir a) = Inr target"
    and "\<not> walk_fails w (target_dir a)" and "writable w (output_path a)"
  shows "main w a =
     (case context_section w a of
        Inl e \<Rightarrow> \<lparr>status = Some e, out_file = Some []\<rparr>
      | Inr ctx \<Rightarrow>
          if encodable w (format_tree (build_directory_tree (resolved_name w (target_dir a)) []
                                         target spec (max_size a)) [] True)
          then \<lparr>status = fst (write_files w a
                   (preamble ctx (build_directory_tree (resolved_name w (target_dir a)) []
                                    target spec (max_size a)))
                   (sort_key fst (included_files target spec (max_size a)))),
                out_file = Some (concat (snd (write_files w a
                   (preamble ctx (build_directory_tree (resolved_name w (target_dir a)) []
                                    target spec (max_size a)))
                   (sort_key fst (included_files target spec (max_size a))))))\<rparr>
          else \<lparr>status = Some UnicodeEncodeError,
                out_file = Some (concat ctx @ ''# Codebase Structure'' @ nl @ nl @ ''```'' @ nl)\<rparr>)"
  using assms by (simp add: main_def Let_def stream_write_def preamble_def split: sum.splits)

lemma main_loop:
  assumes "load_ignore_spec w a = Inr spec" and "open_dir w (target_dir a) = Inr target"
    and "\<not> walk_fails w (target_dir a)" and "writable w (output_path a)"
    and "context_section w a = Inr ctx"
    and "encodable w (format_tree (build_directory_tree (resolved_name w (target_dir a)) []
                                     target spec (max_size a)) [] True)"
  shows "main w a =
     \<lparr>status = fst (write_files w a
         (preamble ctx (build_directory_tree (resolved_name w (target_dir a)) []
                          target spec (max_size a)))
         (sort_key fst (included_files target spec (max_size a)))),
      out_file = Some (concat (snd (write_files w a
         (preamble ctx (build_directory_tree (resolved_name w (target_dir a)) []
                          target spec (max_size a)))
         (sort_key fst (included_files target spec (max_size a))))))\<rparr>"
  using assms(5,6) by (simp add: main_after_walk [OF assms(1-4)])

lemma main_context_failure:
  assumes "load_ignore_spec w a = Inr spec" and "open_dir w (target_dir a) = Inr target"
    and "\<not> walk_fails w (target_dir a)" and "writable w (output_path a)"
    and "context_section w a = Inl e"
  shows "main w a = \<lparr>status = Some e, out_file = Some []\<rparr>"
  using assms(5) by (simp add: main_after_walk [OF assms(1-4)])

lemma status_main:
  "status (main w a) =
     (case load_ignore_spec w a of
        Inl e \<Rightarrow> Some e
      | Inr spec \<Rightarrow>
          (case open_dir w (target_dir a) of
             Inl e \<Rightarrow> Some e
           | Inr target \<Rightarrow>
               if walk_fails w (target_dir a) then Some OSError
               else if \<not> writable w (output_path a) then Some OutputOpenError
               else (case context_section w a of
                       Inl e \<Rightarrow> Some e
                     | Inr ctx \<Rightarrow>
                         if \<not> encodable w (format_tree (build_directory_tree
                               (resolved_name w (target_dir a)) [] target spec (max_size a)) [] True)
                         then Some UnicodeEncodeError
                         else fst (write_files w a
                                (preamble ctx (build_directory_tree
                                   (resolved_name w (target_dir a)) [] target spec (max_size a)))
                                (sort_key fst (included_files target spec (max_size a)))))))"
  by (simp add: main_def Let_def stream_write_def preamble_def split: sum.splits)

lemma status_main_None:
  assumes "status (main w a) = None"
  obtains spec target ctx where "load_ignore_spec w a = Inr spec"
    and "open_dir w (target_dir a) = Inr target"
    and "\<not> walk_fails w (target_dir a)" and "writable w (output_path a)"
    and "context_section w a = Inr ctx"
    and "encodable w (format_tree (build_directory_tree (resolved_name w (target_dir a)) []
                                     target spec (max_size a)) [] True)"
    and "fst (write_files w a
           (preamble ctx (build_directory_tree (resolved_name w (target_dir a)) []
                            target spec (max_size a)))
           (sort_key fst (included_files target spec (max_size a)))) = None"
  using assms unfolding status_main
  by (auto split: sum.splits if_splits)

lemma ex_load: "load_ignore_spec ex_env ex_args = Inr (\<lambda>p. path_str p = ''secret.txt'')"
  by (simp add: load_ignore_spec_def path_exists_def open_read_def ex_env_def ex_args_def)

lemma ex_open_dir: "open_dir ex_env ''proj'' = Inr ex_target"
  by (simp add: open_dir_def ex_env_def ex_target_def)

subsection \<open>What the writing loop writes\<close>

lemma concat_block_chunks: "concat (block_chunks p c) = file_block p c"
  by (simp add: block_chunks_def file_block_def)

lemma visible_Nil [simp]: "visible w [] = []"
  by (simp add: visible_def)

lemma write_files_blocks:
  "fst (write_files w a out xs) = None \<Longrightarrow>
   snd (write_files w a out xs) =
     out @ concat (map (\<lambda>(p, c). block_chunks p c) (written_blocks w a out xs))"
proof (induction xs arbitrary: out)
  case Nil
  then show ?case by simp
next
  case (Cons x xs)
  obtain p e where x: "x = (p, e)" by (cases x)
  show ?case
  proof (cases "read_collected w a out p e")
    case (Inl err)
    with Cons show ?thesis by (auto simp: x split: if_splits)
  next
    case (Inr c)
    with Cons.prems have n: "fst (write_files w a (out @ block_chunks p c) xs) = None"
      by (auto simp: x stream_write_def block_chunks_def split: if_splits)
    from Cons.prems Inr
    have eq: "write_files w a out ((p, e) # xs) = write_files w a (out @ block_chunks p c) xs"
      by (auto simp: stream_write_def block_chunks_def x split: if_splits)
    have b: "written_blocks w a out (x # xs) =
        (p, c) # written_blocks w a (out @ block_chunks p c) xs"
      using Inr by (simp add: x)
    from Cons.IH [OF n] show ?thesis
      unfolding x [symmetric] b by (simp only: x eq) simp
  qed
qed

lemma document_blocks:
  assumes "fst (write_files w a out xs) = None"
  shows "concat (snd (write_files w a out xs)) =
     concat out @ concat (map (\<lambda>(p, c). file_block p c) (written_blocks w a out xs))"
proof -
  have "concat (concat (map (\<lambda>(p, c). block_chunks p c) ys)) =
        concat (map (\<lambda>(p, c). file_block p c) ys)" for ys :: "(string list \<times> string) list"
    by (induction ys) (auto simp: concat_block_chunks)
  with write_files_blocks [OF assms] show ?thesis by simp
qed

lemma written_blocks_member:
  "(p, c) \<in> set (written_blocks w a out xs) \<Longrightarrow> \<exists>e. (p, e) \<in> set xs"
proof (induction xs arbitrary: out)
  case Nil
  then show ?case by simp
next
  case (Cons x xs)
  obtain q e where x: "x = (q, e)" by (cases x)
  from Cons.prems Cons.IH show ?case
    by (auto simp: x split: sum.splits if_splits)
qed

lemma fst_written_blocks_subset: "fst ` set (written_blocks w a out xs) \<subseteq> fst ` set xs"
proof
  fix p assume "p \<in> fst ` set (written_blocks w a out xs)"
  then obtain c where "(p, c) \<in> set (written_blocks w a out xs)" by auto
  then obtain e where "(p, e) \<in> set xs" by (auto dest: written_blocks_member)
  then show "p \<in> fst ` set xs" by (rule image_eqI [rotated]) simp
qed

lemma written_blocks_text:
  "(p, c) \<in> set (written_blocks w a out xs) \<Longrightarrow>
   \<not> output_at w (output_path a) (target_dir a) p \<Longrightarrow>
   \<exists>e. (p, e) \<in> set xs \<and> read_text w (file_bytes e) = Some c"
proof (induction xs arbitrary: out)
  case Nil
  then show ?case by simp
next
  case (Cons x xs)
  obtain q e where x: "x = (q, e)" by (cases x)
  show ?case
  proof (cases "read_collected w a out q e")
    case (Inl err)
    with Cons.prems have "(p, c) \<in> set (written_blocks w a out xs)"
      by (auto simp: x split: if_splits)
    from Cons.IH [OF this Cons.prems(2)] show ?thesis by auto
  next
    case (Inr c')
    with Cons.prems(1)
    consider "p = q" "c = c'" | "(p, c) \<in> set (written_blocks w a (out @ block_chunks q c') xs)"
      by (auto simp: x)
    then show ?thesis
    proof cases
      case 1
      with Inr Cons.prems(2) have "read_text w (file_bytes e) = Some c"
        by (auto simp: read_collected_def split: if_splits option.splits)
      with 1 show ?thesis by (auto simp: x)
    next
      case 2
      from Cons.IH [OF this Cons.prems(2)] show ?thesis by auto
    qed
  qed
qed

lemma written_blocks_has:
  "fst (write_files w a out xs) = None \<Longrightarrow> (p, e) \<in> set xs \<Longrightarrow>
   \<not> output_at w (output_path a) (target_dir a) p \<Longrightarrow>
   read_text w (file_bytes e) = Some c \<Longrightarrow>
   (p, c) \<in> set (written_blocks w a out xs)"
proof (induction xs arbitrary: out)
  case Nil
  then show ?case by simp
next
  case (Cons x xs)
  obtain q e' where x: "x = (q, e')" by (cases x)
  show ?case
  proof (cases "read_collected w a out q e'")
    case (Inl err)
    with Cons.prems(1) have d: "err = UnicodeDecodeError"
      and n: "fst (write_files w a out xs) = None"
      by (auto simp: x split: if_splits)
    have "(p, e) \<noteq> (q, e')"
    proof
      assume "(p, e) = (q, e')"
      with Inl d Cons.prems(1,3,4) show False
        by (auto simp: read_collected_def x split: if_splits option.splits)
    qed
    with Cons.prems(2) have "(p, e) \<in> set xs" by (auto simp: x)
    from Cons.IH [OF n this Cons.prems(3,4)] Inl d show ?thesis
      by (simp add: x)
  next
    case (Inr c')
    with Cons.prems(1) have n: "fst (write_files w a (out @ block_chunks q c') xs) = None"
      by (auto simp: x stream_write_def block_chunks_def split: if_splits)
    show ?thesis
    proof (cases "(p, e) = (q, e')")
      case True
      with Inr Cons.prems(3,4) have "c' = c"
        by (auto simp: read_collected_def split: if_splits option.splits)
      with True Inr show ?thesis by (simp add: x)
    next
      case False
      with Cons.prems(2) have "(p, e) \<in> set xs" by (auto simp: x)
      from Cons.IH [OF n this Cons.prems(3,4)] Inr show ?thesis
        by (simp add: x)
    qed
  qed
qed

lemma written_blocks_read:
  "written_blocks w a out xs = bs1 @ (p, c) # bs2 \<Longrightarrow>
   \<exists>e. (p, e) \<in> set xs \<and>
       read_collected w a (out @ concat (map (\<lambda>(p, c). block_chunks p c) bs1)) p e = Inr c"
proof (induction xs arbitrary: out bs1)
  case Nil
  then show ?case by simp
next
  case (Cons x xs)
  obtain q e' where x: "x = (q, e')" by (cases x)
  show ?case
  proof (cases "read_collected w a out q e'")
    case (Inl err)
    with Cons.prems have "written_blocks w a out xs = bs1 @ (p, c) # bs2"
      by (auto simp: x split: if_splits)
    from Cons.IH [OF this] show ?thesis by auto
  next
    case (Inr c')
    with Cons.prems
    have eq: "(q, c') # written_blocks w a (out @ block_chunks q c') xs = bs1 @ (p, c) # bs2"
      by (simp add: x)
    show ?thesis
    proof (cases bs1)
      case Nil
      with eq have "q = p" "c' = c" by simp_all
      with Inr Nil show ?thesis by (auto simp: x)
    next
      case (Cons b bs1')
      with eq have b: "b = (q, c')"
        and r: "written_blocks w a (out @ block_chunks q c') xs = bs1' @ (p, c) # bs2"
        by simp_all
      from Cons.IH [OF r] Cons b show ?thesis by auto
    qed
  qed
qed

lemma written_blocks_destination:
  assumes "written_blocks w a out xs = bs1 @ (p, c) # bs2"
    and "output_at w (output_path a) (target_dir a) p"
  shows "read_text w (visible w (out @ concat (map (\<lambda>(p, c). block_chunks p c) bs1))) = Some c"
proof -
  from written_blocks_read [OF assms(1)] obtain e where
    "read_collected w a (out @ concat (map (\<lambda>(p, c). block_chunks p c) bs1)) p e = Inr c"
    by blast
  with assms(2) show ?thesis
    by (auto simp: read_collected_def split: if_splits option.splits)
qed

lemma write_files_removeAll:
  assumes "\<not> read_fails_at w (target_dir a) p"
    and "\<not> output_at w (output_path a) (target_dir a) p"
    and "read_text w (file_bytes e) = None"
  shows "write_files w a out xs = write_files w a out (removeAll (p, e) xs)"
proof (induction xs arbitrary: out)
  case Nil
  then show ?case by simp
next
  case (Cons x xs)
  obtain q e' where x: "x = (q, e')" by (cases x)
  show ?case
  proof (cases "(q, e') = (p, e)")
    case True
    with assms have "read_collected w a out q e' = Inl UnicodeDecodeError"
      by (simp add: read_collected_def)
    with True Cons.IH [of out] show ?thesis by (simp add: x)
  next
    case False
    with Cons.IH show ?thesis
      by (auto simp: x split: sum.splits)
  qed
qed

lemma written_blocks_skips:
  assumes "\<not> read_fails_at w (target_dir a) p"
    and "\<not> output_at w (output_path a) (target_dir a) p"
    and "\<And>e. (p, e) \<in> set xs \<Longrightarrow> read_text w (file_bytes e) = None"
  shows "p \<notin> fst ` set (written_blocks w a out xs)"
proof
  assume "p \<in> fst ` set (written_blocks w a out xs)"
  then obtain c where "(p, c) \<in> set (written_blocks w a out xs)" by auto
  from written_blocks_text [OF this assms(2)] assms(3) show False by auto
qed

lemma write_files_completes:
  assumes "\<And>p e. (p, e) \<in> set xs \<Longrightarrow> \<not> read_fails_at w (target_dir a) p \<and>
              encodable w (''## File: '' @ path_str p @ nl) \<and>
              encodable w (''```'' @ lstrip (CHR ''.'') (path_suffix (last p)) @ nl)"
  shows "fst (write_files w a out xs) = None"
  using assms
proof (induction xs arbitrary: out)
  case Nil
  then show ?case by simp
next
  case (Cons x xs)
  obtain q e where x: "x = (q, e)" by (cases x)
  from Cons.prems [of q e]
  have h: "\<not> read_fails_at w (target_dir a) q"
    "encodable w (''## File: '' @ path_str q @ nl)"
    "encodable w (''```'' @ lstrip (CHR ''.'') (path_suffix (last q)) @ nl)"
    by (simp_all add: x)
  have r: "fst (write_files w a out' xs) = None" for out'
    by (rule Cons.IH) (use Cons.prems in auto)
  show ?case
  proof (cases "read_collected w a out q e")
    case (Inl err)
    with h(1) have "err = UnicodeDecodeError"
      by (auto simp: read_collected_def split: option.splits)
    with Inl r show ?thesis by (simp add: x)
  next
    case (Inr c)
    with h r show ?thesis by (simp add: x stream_write_def)
  qed
qed

lemma written_blocks_content_blocks:
  assumes "fst (write_files w a out xs) = None"
    and "\<And>p e. (p, e) \<in> set xs \<Longrightarrow> \<not> output_at w (output_path a) (target_dir a) p"
  shows "written_blocks w a out xs = content_blocks w xs"
  using assms
proof (induction xs arbitrary: out)
  case Nil
  then show ?case by simp
next
  case (Cons x xs)
  obtain q e where x: "x = (q, e)" by (cases x)
  from Cons.prems(2) [of q e] have o: "\<not> output_at w (output_path a) (target_dir a) q"
    by (simp add: x)
  have t: "\<And>p e. (p, e) \<in> set xs \<Longrightarrow> \<not> output_at w (output_path a) (target_dir a) p"
    using Cons.prems(2) by auto
  show ?case
  proof (cases "read_collected w a out q e")
    case (Inl err)
    with Cons.prems(1) have d: "err = UnicodeDecodeError"
      and n: "fst (write_files w a out xs) = None"
      by (auto simp: x split: if_splits)
    from Inl d o have "read_text w (file_bytes e) = None"
      by (auto simp: read_collected_def split: if_splits option.splits)
    with Cons.IH [OF n t] Inl d show ?thesis by (simp add: x)
  next
    case (Inr c)
    with Cons.prems(1) have n: "fst (write_files w a (out @ block_chunks q c) xs) = None"
      by (auto simp: x stream_write_def block_chunks_def split: if_splits)
    from Inr o have "read_text w (file_bytes e) = Some c"
      by (auto simp: read_collected_def split: if_splits option.splits)
    with Cons.IH [OF n t] Inr show ?thesis by (simp add: x)
  qed
qed

lemma content_blocks_iff:
  "(p, c) \<in> set (content_blocks w xs) \<longleftrightarrow>
     (\<exists>e. (p, e) \<in> set xs \<and> read_text w (file_bytes e) = Some c)"
  by (induction xs) (auto split: option.splits)

lemma fst_content_blocks_subset: "fst ` set (content_blocks w xs) \<subseteq> fst ` set xs"
proof
  fix p assume "p \<in> fst ` set (content_blocks w xs)"
  then obtain c where "(p, c) \<in> set (content_blocks w xs)" by auto
  then obtain e where "(p, e) \<in> set xs" unfolding content_blocks_iff by blast
  then show "p \<in> fst ` set xs" by (rule image_eqI [rotated]) simp
qed

lemma sublist_concat_member: "x \<in> set xs \<Longrightarrow> sublist x (concat xs)"
proof -
  assume "x \<in> set xs"
  then obtain ys zs where "xs = ys @ x # zs" by (auto dest: split_list)
  then have "concat xs = concat ys @ x @ concat zs" by simp
  then show ?thesis by (simp add: sublist_appendI)
qed

subsection \<open>Entries and their nodes\<close>

lemma find_map_of:
  "map_of es n = Some e \<Longrightarrow> find (\<lambda>ne. fst ne = n) es = Some (n, e)"
  by (induction es) (auto split: if_splits)

lemma find_build_entry:
  "find (\<lambda>c. name c = n) (map (build_entry spec mx rel) es) =
     map_option (build_entry spec mx rel) (find (\<lambda>ne. fst ne = n) es)"
  by (induction es) auto

lemma node_at_set_ignored:
  "p \<noteq> [] \<Longrightarrow> node_at (set_ignored b t) p = node_at t p"
  by (cases p) simp_all

lemma follow_follow [simp]: "follow (follow d) = follow d"
  by (induction d rule: follow.induct) auto

lemma iterdir_follow [simp]: "iterdir (follow d) = iterdir d"
  by (simp add: iterdir_def)

lemma node_at_build:
  "lstat d q = Some e \<Longrightarrow> q \<noteq> [] \<Longrightarrow>
   node_at (build_directory_tree nm rel d spec mx) q =
     Some (build_entry spec mx (rel @ butlast q) (last q, e))"
proof (induction q arbitrary: d rel nm)
  case Nil
  then show ?case by simp
next
  case (Cons n p)
  from Cons.prems obtain e0 where e0: "map_of (iterdir d) n = Some e0"
    by (auto split: option.splits)
  have f: "find (\<lambda>c. name c = n) (map (build_entry spec mx rel) (iterdir d)) =
        Some (build_entry spec mx rel (n, e0))"
    by (simp add: find_build_entry find_map_of [OF e0])
  show ?case
  proof (cases "p = []")
    case True
    with Cons.prems e0 have "e = e0" by simp
    with True f show ?thesis by simp
  next
    case False
    with Cons.prems e0 have d0: "path_is_dir e0" and l: "lstat (follow e0) p = Some e"
      by (auto split: if_splits)
    from Cons.IH [OF l False]
    have "node_at (build_directory_tree n (rel @ [n]) (follow e0) spec mx) p =
        Some (build_entry spec mx ((rel @ [n]) @ butlast p) (last p, e))" .
    then show ?thesis using False d0 f
      by (simp add: build_entry_def node_at_set_ignored)
  qed
qed

lemma format_line_sublist:
  "node_at t p = Some n \<Longrightarrow> \<exists>pre il. sublist (format_line n pre il) (format_tree t pre0 il0)"
proof (induction p arbitrary: t pre0 il0)
  case Nil
  then have "n = t" by simp
  then have "sublist (format_line n pre0 il0) (format_tree t pre0 il0)"
    by (simp add: format_tree_eq [of t])
  then show ?case by blast
next
  case (Cons m q)
  from Cons.prems obtain c where d: "is_dir t"
    and c: "find (\<lambda>c. name c = m) (children t) = Some c" and n: "node_at c q = Some n"
    by (auto split: if_splits option.splits)
  from c have "c \<in> set (children t)"
    by (auto simp: find_Some_iff)
  then have "c \<in> set (sort_desc (\<lambda>x. (is_dir x, name x)) (children t))" by simp
  then obtain i where "i < length (sort_desc (\<lambda>x. (is_dir x, name x)) (children t))"
    and "sort_desc (\<lambda>x. (is_dir x, name x)) (children t) ! i = c"
    unfolding in_set_conv_nth by blast
  then have i: "(i, c) \<in> set (enumerate 0 (sort_desc (\<lambda>x. (is_dir x, name x)) (children t)))"
    by (simp add: in_set_enumerate_eq)
  let ?pre = "pre0 @ (if il0 then ext_last else ext_mid)"
  let ?b = "i = length (sort_desc (\<lambda>x. (is_dir x, name x)) (children t)) - 1"
  from i have "sublist (format_tree c ?pre ?b) (format_children t pre0 il0)"
    unfolding format_children_def Let_def
    by (intro sublist_concat_member) (auto simp: image_iff intro!: bexI [where x = "(i, c)"])
  then have s: "sublist (format_tree c ?pre ?b) (format_tree t pre0 il0)"
    using d by (simp add: format_tree_eq [of t] sublist_append)
  from Cons.IH [OF n] obtain pre il where "sublist (format_line n pre il) (format_tree c ?pre ?b)"
    by blast
  from this s have "sublist (format_line n pre il) (format_tree t pre0 il0)"
    by (rule sublist_order.order.trans)
  then show ?case by blast
qed

subsection \<open>Entries and the collected files\<close>

lemma collect_eq_filter:
  "collect spec mx xs =
     filter (\<lambda>(p, e). \<not> path_is_dir e \<and> \<not> path_is_symlink e \<and> \<not> spec p \<and> st_size e \<le> mx) xs"
proof (induction xs)
  case Nil
  then show ?case by simp
next
  case (Cons x xs)
  obtain p e where x: "x = (p, e)" by (cases x)
  show ?case unfolding x by (simp add: Cons.IH not_less)
qed

lemma set_rglob_Nil: "set (rglob (Dir []) rel) = {}"
  by (subst rglob.simps(1)) simp

lemma set_rglob_Cons:
  "set (rglob (Dir ((n, c) # es)) rel) =
     insert (rel @ [n], c)
       (set (case c of Dir _ \<Rightarrow> rglob c (rel @ [n]) | _ \<Rightarrow> []) \<union> set (rglob (Dir es) rel))"
  unfolding rglob.simps(1) [of "(n, c) # es" rel] rglob.simps(1) [of es rel] by auto

lemma in_rglob_Dir:
  "(p, e) \<in> set (rglob (Dir es) rel) \<longleftrightarrow>
     (\<exists>n. (n, e) \<in> set es \<and> p = rel @ [n]) \<or>
     (\<exists>n cs. (n, Dir cs) \<in> set es \<and> (p, e) \<in> set (rglob (Dir cs) (rel @ [n])))"
proof (induction es)
  case Nil
  show ?case by (simp add: set_rglob_Nil)
next
  case (Cons x es)
  obtain n c where x: "x = (n, c)" by (cases x)
  have here: "(p, e) \<in> set (case c of Dir _ \<Rightarrow> rglob c (rel @ [n]) | _ \<Rightarrow> []) \<longleftrightarrow>
      (\<exists>cs. c = Dir cs \<and> (p, e) \<in> set (rglob (Dir cs) (rel @ [n])))"
    by (cases c) simp_all
  show ?case
    unfolding x set_rglob_Cons insert_iff Un_iff here Cons.IH by auto
qed

lemma rglob_lstat_real:
  "wf_fs d \<Longrightarrow> (p, e) \<in> set (rglob d rel) \<Longrightarrow>
     \<exists>q. q \<noteq> [] \<and> p = rel @ q \<and> lstat_real d q = Some e"
proof (induction d arbitrary: p e rel rule: wf_fs.induct)
  case (2 es)
  from "2.prems"(1) have dist: "distinct (map fst es)"
    and wfs: "\<And>n c. (n, c) \<in> set es \<Longrightarrow> wf_fs c"
    by (auto simp: list_all_iff)
  from "2.prems"(2) [THEN in_rglob_Dir [THEN iffD1]]
  consider (here) n where "(n, e) \<in> set es" "p = rel @ [n]"
    | (below) n cs where "(n, Dir cs) \<in> set es" "(p, e) \<in> set (rglob (Dir cs) (rel @ [n]))"
    by blast
  then show ?case
  proof cases
    case here
    then have "lstat_real (Dir es) [n] = Some e" using dist by simp
    with here show ?thesis by blast
  next
    case below
    from "2.IH" [OF below(1) refl wfs [OF below(1)] below(2)]
    obtain q where q: "q \<noteq> []" "p = (rel @ [n]) @ q" "lstat_real (Dir cs) q = Some e" by blast
    have "lstat_real (Dir es) (n # q) = Some e" using below(1) dist q by simp
    with q show ?thesis by (intro exI [of _ "n # q"]) simp
  qed
qed (simp_all add: rglob.simps)

lemma lstat_real_rglob:
  "lstat_real d q = Some e \<Longrightarrow> q \<noteq> [] \<Longrightarrow> (rel @ q, e) \<in> set (rglob d rel)"
proof (induction q arbitrary: d rel)
  case Nil
  then show ?case by simp
next
  case (Cons n q)
  from Cons.prems obtain es c where d: "d = Dir es" and c: "map_of es n = Some c"
    and l: "lstat_real c q = Some e"
    by (cases d) (auto split: option.splits)
  from c have m: "(n, c) \<in> set es" by (rule map_of_SomeD)
  show ?case
  proof (cases "q = []")
    case True
    with l have "c = e" by simp
    with m True show ?thesis unfolding d by (intro in_rglob_Dir [THEN iffD2]) simp
  next
    case False
    from Cons.IH [OF l False, of "rel @ [n]"] have r: "(rel @ n # q, e) \<in> set (rglob c (rel @ [n]))"
      by simp
    from l False obtain cs where "c = Dir cs" by (cases c; cases q) auto
    with r m show ?thesis unfolding d by (intro in_rglob_Dir [THEN iffD2]) auto
  qed
qed

lemma lstat_real_lstat:
  "lstat_real d q = Some e \<Longrightarrow> q \<noteq> [] \<Longrightarrow> lstat d q = Some e"
proof (induction q arbitrary: d)
  case Nil
  then show ?case by simp
next
  case (Cons n q)
  from Cons.prems obtain es c where d: "d = Dir es" and c: "map_of es n = Some c"
    and l: "lstat_real c q = Some e"
    by (cases d) (auto split: option.splits)
  show ?case
  proof (cases "q = []")
    case True
    with l c d show ?thesis by (simp add: iterdir_def)
  next
    case False
    from l False obtain cs where cs: "c = Dir cs" by (cases c; cases q) auto
    from Cons.IH [OF l False] c d cs False show ?thesis
      by (simp add: iterdir_def path_is_dir_def)
  qed
qed


lemma included_files_iff:
  "(p, e) \<in> set (included_files target spec mx) \<longleftrightarrow>
     (p, e) \<in> set (rglob target []) \<and> \<not> path_is_dir e \<and> \<not> path_is_symlink e \<and>
     \<not> spec p \<and> st_size e \<le> mx"
  by (auto simp: included_files_def collect_eq_filter)

lemma included_files_lstat:
  assumes "wf_fs target" and "(p, e) \<in> set (included_files target spec mx)"
  shows "lstat target p = Some e"
proof -
  from assms(2) have "(p, e) \<in> set (rglob target [])"
    by (simp add: included_files_iff)
  from rglob_lstat_real [OF assms(1) this] have "p \<noteq> []" "lstat_real target p = Some e"
    by auto
  then show ?thesis by (simp add: lstat_real_lstat)
qed

lemma blocks_subset_included:
  "p \<notin> fst ` set (included_files target spec mx) \<Longrightarrow>
   p \<notin> fst ` set (content_blocks w (sort_key fst (included_files target spec mx)))"
  using fst_content_blocks_subset [of w "sort_key fst (included_files target spec mx)"]
  by auto

lemma rendered_entry:
  assumes "lstat target p = Some e" and "p \<noteq> []"
  shows "node_at (build_directory_tree nm [] target spec mx) p =
           Some (build_entry spec mx (butlast p) (last p, e))"
    and "\<exists>pre il. sublist (format_line (build_entry spec mx (butlast p) (last p, e)) pre il)
           (format_tree (build_directory_tree nm [] target spec mx) [] True)"
proof -
  show n: "node_at (build_directory_tree nm [] target spec mx) p =
           Some (build_entry spec mx (butlast p) (last p, e))"
    using node_at_build [OF assms, of nm "[]" spec mx] by simp
  show "\<exists>pre il. sublist (format_line (build_entry spec mx (butlast p) (last p, e)) pre il)
           (format_tree (build_directory_tree nm [] target spec mx) [] True)"
    by (rule format_line_sublist [OF n])
qed


lemma ex_wf: "wf_fs ex_target"
  by (simp add: ex_target_def)



lemma ex_lstat_secret: "lstat ex_target [''secret.txt''] = Some (File ''s'')"
  by (simp add: ex_target_def iterdir_def)

lemma ex_lstat_ln: "lstat ex_target [''sub'', ''ln''] = Some (Symlink (Some (File ''t'')))"
  by (simp add: ex_target_def iterdir_def path_is_dir_def)


lemma included_files_real:
  assumes "lstat_real target q = Some (File bs)" and "q \<noteq> []" and "\<not> spec q"
    and "int (length bs) \<le> mx"
  shows "(q, File bs) \<in> set (included_files target spec mx)"
proof -
  from lstat_real_rglob [OF assms(1,2), of "[]"] have "(q, File bs) \<in> set (rglob target [])"
    by simp
  with assms(3,4) show ?thesis
    by (simp add: included_files_iff path_is_dir_def path_is_symlink_def st_size_def)
qed

lemma ex_context: "context_section ex_env ex_args =
    Inr [''# Context Overview'' @ nl @ nl @ ''hello'' @ nl @ nl]"
  by (simp add: context_section_def open_context_def open_read_def ex_env_def ex_args_def)

lemma ex_target_dir: "open_dir ex_env (target_dir ex_args) = Inr ex_target"
  using ex_open_dir by (simp add: ex_args_def)

lemma ex_writable: "writable ex_env (output_path ex_args)"
  by (simp add: ex_env_def)

lemma ex_completes: "fst (write_files ex_env a out xs) = None"
  by (rule write_files_completes) (simp add: ex_env_def)

lemma ex_status: "status (main ex_env ex_args) = None"
  using ex_load ex_target_dir ex_context
  by (simp add: status_main ex_completes) (simp add: ex_env_def)

lemma ex_lstat_real_bin: "lstat_real ex_target [''bin.dat''] = Some (File [CHR 0xFF])"
  by (simp add: ex_target_def)

lemma ex_read_bin: "read_text ex_env (file_bytes (File [CHR 0xFF])) = None"
  by (simp add: ex_env_def file_bytes_def)

lemma sorted_content_blocks:
  "sorted (map fst xs) \<Longrightarrow> sorted (map fst (content_blocks w xs))"
proof (induction xs)
  case Nil
  then show ?case by simp
next
  case (Cons x xs)
  obtain p e where x: "x = (p, e)" by (cases x)
  from Cons.prems have le: "\<forall>q \<in> fst ` set xs. p \<le> q" and s: "sorted (map fst xs)"
    by (auto simp: x)
  from le fst_content_blocks_subset [of w xs]
  have "\<forall>q \<in> fst ` set (content_blocks w xs). p \<le> q" by blast
  with Cons.IH [OF s] show ?case
    by (auto simp: x split: option.splits)
qed

lemma ex_here_included:
  "sort_key fst (included_files ex_here (\<lambda>p. False) 102400) =
     [([''a.txt''], File ''aaaaa''), ([''context.md''], File ''old'')]"
  by (simp add: included_files_def rglob.simps ex_here_def path_is_dir_def path_is_symlink_def
      st_size_def)

lemma ex_here_blocks:
  "written_blocks ex_env_here ex_defaults out
     [([''a.txt''], File ''aaaaa''), ([''context.md''], File ''old'')] =
   [([''a.txt''], ''aaaaa''), ([''context.md''], [])]"
  by (simp add: read_collected_def visible_def ex_env_here_def ex_env_def ex_defaults_def
      file_bytes_def)

lemma ex_here_load: "load_ignore_spec ex_env_here ex_defaults = Inr (\<lambda>p. False)"
  by (simp add: load_ignore_spec_def path_exists_def ex_env_here_def ex_defaults_def)

lemma ex_here_dir: "open_dir ex_env_here (target_dir ex_defaults) = Inr ex_here"
  by (simp add: open_dir_def ex_env_here_def ex_defaults_def ex_here_def)

lemma ex_here_status: "status (main ex_env_here ex_defaults) = None"
proof -
  have "fst (write_files ex_env_here ex_defaults out xs) = None" for out xs
    by (rule write_files_completes) (simp add: ex_env_here_def ex_env_def)
  with ex_here_load ex_here_dir show ?thesis
    by (simp add: status_main context_section_def)
      (simp add: ex_env_here_def ex_env_def ex_defaults_def)
qed

lemma sorted_written_blocks:
  "sorted (map fst xs) \<Longrightarrow> sorted (map fst (written_blocks w a out xs))"
proof (induction xs arbitrary: out)
  case Nil
  then show ?case by simp
next
  case (Cons x xs)
  obtain p e where x: "x = (p, e)" by (cases x)
  from Cons.prems have le: "\<forall>q \<in> fst ` set xs. p \<le> q" and s: "sorted (map fst xs)"
    by (auto simp: x)
  from le fst_written_blocks_subset [of w a _ xs]
  have "\<forall>q \<in> fst ` set (written_blocks w a out' xs). p \<le> q" for out' by blast
  with Cons.IH [OF s] show ?case
    by (auto simp: x split: sum.splits)
qed

subsection \<open>Listings in another order\<close>

lemma follow_sort_listing: "follow (sort_listing e) = sort_listing (follow e)"
  by (induction e rule: sort_listing.induct) simp_all

lemma wf_fs_follow: "wf_fs e \<Longrightarrow> wf_fs (follow e)"
  by (induction e rule: follow.induct) simp_all

lemma sort_listing_File_iff [simp]: "sort_listing e = File bs \<longleftrightarrow> e = File bs"
  by (cases e rule: sort_listing.cases) auto

lemma sort_listing_Symlink_None_iff [simp]: "sort_listing e = Symlink None \<longleftrightarrow> e = Symlink None"
  by (cases e rule: sort_listing.cases) auto

lemma follow_not_link: "follow e \<noteq> Symlink (Some t)"
  by (induction e rule: follow.induct) simp_all

lemma path_is_dir_sort_listing [simp]: "path_is_dir (sort_listing e) = path_is_dir e"
  by (cases "follow e" rule: sort_listing.cases)
     (simp_all add: path_is_dir_def follow_sort_listing follow_not_link)

lemma path_is_file_sort_listing [simp]: "path_is_file (sort_listing e) = path_is_file e"
  by (cases "follow e" rule: sort_listing.cases)
     (simp_all add: path_is_file_def follow_sort_listing follow_not_link)

lemma st_size_sort_listing [simp]: "st_size (sort_listing e) = st_size e"
  by (cases "follow e" rule: sort_listing.cases)
     (simp_all add: st_size_def follow_sort_listing follow_not_link)

lemma file_bytes_sort_listing [simp]: "file_bytes (sort_listing e) = file_bytes e"
  by (cases "follow e" rule: sort_listing.cases)
     (simp_all add: file_bytes_def follow_sort_listing follow_not_link)

lemma path_is_symlink_sort_listing [simp]: "path_is_symlink (sort_listing e) = path_is_symlink e"
  by (cases e rule: sort_listing.cases) (simp_all add: path_is_symlink_def)

lemma iterdir_sort_listing:
  "iterdir (sort_listing d) = sort_key fst (map (\<lambda>(n, e). (n, sort_listing e)) (iterdir d))"
  by (cases "follow d" rule: sort_listing.cases)
     (simp_all add: iterdir_def follow_sort_listing follow_not_link)

lemma wf_fs_iterdir:
  assumes "wf_fs d"
  shows "distinct (map fst (iterdir d))" and "(n, e) \<in> set (iterdir d) \<Longrightarrow> wf_fs e"
proof -
  from assms have w: "wf_fs (follow d)" by (rule wf_fs_follow)
  show "distinct (map fst (iterdir d))"
    using w by (cases "follow d") (simp_all add: iterdir_def)
  show "wf_fs e" if "(n, e) \<in> set (iterdir d)"
    using w that by (cases "follow d") (auto simp: iterdir_def list_all_iff)
qed

lemma sort_desc_map: "sort_desc k (map f xs) = map f (sort_desc (\<lambda>x. k (f x)) xs)"
proof -
  have ins: "insort_key k (f x) (map f ys) = map f (insort_key (\<lambda>x. k (f x)) x ys)" for x ys
    by (induction ys) simp_all
  have "sort_key k (map f ys) = map f (sort_key (\<lambda>x. k (f x)) ys)" for ys
    by (induction ys) (simp_all add: ins)
  then show ?thesis
    by (simp add: sort_desc_def rev_map)
qed

lemma sort_desc_mset_eq:
  assumes "mset xs = mset ys" and "inj_on k (set xs)"
  shows "sort_desc k xs = sort_desc k ys"
proof -
  have "sort_key k (rev xs) = sort_key k (rev ys)"
  proof (rule sort_key_inj_key_eq)
    show "mset (rev xs) = mset (sort_key k (rev ys))" using assms(1) by simp
    show "inj_on k (set (rev xs))" using assms(2) by simp
    show "sorted (map k (sort_key k (rev ys)))" by simp
  qed
  then show ?thesis by (simp add: sort_desc_def)
qed


lemma format_tree_eqI:
  assumes "name t1 = name t2" "is_dir t1 = is_dir t2" "ignored t1 = ignored t2"
    "size_exceeded t1 = size_exceeded t2"
    "format_children t1 pre il = format_children t2 pre il"
  shows "format_tree t1 pre il = format_tree t2 pre il"
  using assms by (simp add: format_tree_eq [of t1] format_tree_eq [of t2] format_line_def
      annotation_def)

lemma format_children_children:
  "children t1 = children t2 \<Longrightarrow> format_children t1 pre il = format_children t2 pre il"
  by (simp add: format_children_def)

lemma enumerate_map: "enumerate n (map f xs) = map (\<lambda>(i, x). (i, f x)) (enumerate n xs)"
  by (induction xs arbitrary: n) simp_all

lemma concat_enumerate_cong:
  assumes "\<And>x b. x \<in> set xs \<Longrightarrow> F (f x) b = F (g x) b"
  shows "concat (map (\<lambda>(i, c). F c (i = m)) (enumerate 0 (map f xs))) =
         concat (map (\<lambda>(i, c). F c (i = m)) (enumerate 0 (map g xs)))"
proof -
  have "map (\<lambda>(i, c). F c (i = m)) (enumerate 0 (map f xs)) =
        map (\<lambda>(i, x). F (f x) (i = m)) (enumerate 0 xs)"
    by (simp add: enumerate_map case_prod_beta)
  also have "\<dots> = map (\<lambda>(i, x). F (g x) (i = m)) (enumerate 0 xs)"
    by (rule map_cong) (auto simp: in_set_enumerate_eq assms)
  also have "\<dots> = map (\<lambda>(i, c). F c (i = m)) (enumerate 0 (map g xs))"
    by (simp add: enumerate_map case_prod_beta)
  finally show ?thesis by simp
qed

lemma format_children_build_entry:
  "path_is_dir e \<Longrightarrow>
   format_children (build_entry spec mx rel (n, e)) p b =
   format_children (build_directory_tree n (rel @ [n]) (follow e) spec mx) p b"
  by (rule format_children_children) simp

lemma format_children_sort_listing:
  "wf_fs d \<Longrightarrow>
   format_children (build_directory_tree nm rel (sort_listing d) spec mx) pre il =
   format_children (build_directory_tree nm rel d spec mx) pre il"
proof (induction d arbitrary: nm rel pre il rule: measure_induct_rule [of size])
  case (less d)
  let ?key = "\<lambda>x. (is_dir x, name x)"
  let ?B = "build_entry spec mx rel"
  let ?N = "\<lambda>ne. (fst ne, sort_listing (snd ne))"
  let ?es = "iterdir d"
  let ?p = "pre @ (if il then ext_last else ext_mid)"
  have N: "(\<lambda>(n, e). (n, sort_listing e)) = ?N" by (simp add: fun_eq_iff)
  from wf_fs_iterdir(1) [OF less.prems] have dist: "distinct (map fst ?es)" .
  have keyB: "?key (?B (?N x)) = ?key (?B x)" for x
    by (cases x) simp
  have kf: "(\<lambda>x. ?key (?B (?N x))) = (\<lambda>x. ?key (?B x))"
    using keyB by (simp only: fun_eq_iff) blast
  have keyfst: "fst (?key (?B x)) = path_is_dir (snd x) \<and> snd (?key (?B x)) = fst x" for x
    by (cases x) simp
  have inj: "inj_on ?key (set (map ?B (sort_key fst (map ?N ?es))))"
  proof (rule inj_onI)
    fix s t
    assume s: "s \<in> set (map ?B (sort_key fst (map ?N ?es)))"
      and t: "t \<in> set (map ?B (sort_key fst (map ?N ?es)))"
      and k: "?key s = ?key t"
    from s obtain x where x: "x \<in> set ?es" "s = ?B (?N x)" by auto
    from t obtain y where y: "y \<in> set ?es" "t = ?B (?N y)" by auto
    from k x y have "fst x = fst y"
      using keyfst [of "?N x"] keyfst [of "?N y"] by simp
    with dist x(1) y(1) have "x = y"
      by (metis eq_key_imp_eq_value prod.collapse)
    with x y show "s = t" by simp
  qed
  have "sort_desc ?key (map ?B (sort_key fst (map ?N ?es))) =
        sort_desc ?key (map ?B (map ?N ?es))"
    by (rule sort_desc_mset_eq [OF _ inj]) (simp add: multiset.map_comp)
  also have "\<dots> = sort_desc ?key (map (\<lambda>x. ?B (?N x)) ?es)"
    by (simp only: map_map o_def)
  also have "\<dots> = map (\<lambda>x. ?B (?N x)) (sort_desc (\<lambda>x. ?key (?B (?N x))) ?es)"
    by (rule sort_desc_map)
  also have "\<dots> = map (\<lambda>x. ?B (?N x)) (sort_desc (\<lambda>x. ?key (?B x)) ?es)"
    by (simp only: kf)
  finally have cs2: "sort_desc ?key (map ?B (sort_key fst (map ?N ?es))) =
      map (\<lambda>x. ?B (?N x)) (sort_desc (\<lambda>x. ?key (?B x)) ?es)" .
  have cs1: "sort_desc ?key (map ?B ?es) = map ?B (sort_desc (\<lambda>x. ?key (?B x)) ?es)"
    by (rule sort_desc_map)
  have pt: "format_tree (?B (?N x)) ?p b = format_tree (?B x) ?p b"
    if "x \<in> set (sort_desc (\<lambda>x. ?key (?B x)) ?es)" for x b
  proof -
    obtain n e where x: "x = (n, e)" by (cases x)
    from that x have m: "(n, e) \<in> set ?es" by simp
    show ?thesis
    proof (cases "path_is_dir e")
      case True
      from wf_fs_iterdir(2) [OF less.prems m] have "wf_fs (follow e)" by (rule wf_fs_follow)
      from less.IH [OF size_iterdir_less [OF m] this]
      have "format_children (build_directory_tree n (rel @ [n]) (sort_listing (follow e)) spec mx) ?p b =
            format_children (build_directory_tree n (rel @ [n]) (follow e) spec mx) ?p b" .
      moreover have "format_children (?B (?N x)) ?p b =
          format_children (build_directory_tree n (rel @ [n]) (sort_listing (follow e)) spec mx) ?p b"
        using format_children_build_entry [of "sort_listing e" spec mx rel n ?p b] True
        by (simp only: x fst_conv snd_conv path_is_dir_sort_listing follow_sort_listing)
      moreover have "format_children (?B x) ?p b =
          format_children (build_directory_tree n (rel @ [n]) (follow e) spec mx) ?p b"
        using format_children_build_entry [of e spec mx rel n ?p b] True
        by (simp only: x)
      ultimately have "format_children (?B (?N x)) ?p b = format_children (?B x) ?p b"
        by simp
      then show ?thesis
        by (intro format_tree_eqI) (simp_all add: x)
    next
      case False
      then show ?thesis using x by (simp add: build_entry_def)
    qed
  qed
  show ?case
    unfolding format_children_def Let_def build_directory_tree_sel iterdir_sort_listing N cs1 cs2
    by (simp only: length_map) (rule concat_enumerate_cong, rule pt)
qed


lemma mset_rglob_Dir:
  "mset (rglob (Dir es) rel) =
     image_mset (\<lambda>x. (rel @ [fst x], snd x)) (mset es) +
     sum_mset (image_mset
       (\<lambda>x. mset (case snd x of Dir _ \<Rightarrow> rglob (snd x) (rel @ [fst x]) | _ \<Rightarrow> [])) (mset es))"
proof -
  have "mset (concat (map (\<lambda>(n, e). case e of Dir _ \<Rightarrow> rglob e (rel @ [n]) | _ \<Rightarrow> []) es)) =
      sum_list (map (\<lambda>x. mset (case snd x of Dir _ \<Rightarrow> rglob (snd x) (rel @ [fst x]) | _ \<Rightarrow> [])) es)"
    by (simp add: mset_concat case_prod_beta o_def)
  also have "\<dots> = sum_mset (mset (map
      (\<lambda>x. mset (case snd x of Dir _ \<Rightarrow> rglob (snd x) (rel @ [fst x]) | _ \<Rightarrow> [])) es))"
    by (simp only: sum_mset_sum_list)
  finally show ?thesis
    by (subst rglob.simps(1)) (simp add: case_prod_unfold)
qed

lemma mset_rglob_perm:
  "mset es = mset es' \<Longrightarrow> mset (rglob (Dir es) rel) = mset (rglob (Dir es') rel)"
  by (simp only: mset_rglob_Dir)

lemma mset_rglob_Cons:
  "mset (rglob (Dir ((n, e) # es)) rel) =
     add_mset (rel @ [n], e)
       (mset (case e of Dir _ \<Rightarrow> rglob e (rel @ [n]) | _ \<Rightarrow> []) +
        mset (rglob (Dir es) rel))"
  by (cases e) (simp_all add: mset_rglob_Dir)

lemma mset_rglob_Nil: "mset (rglob (Dir []) rel) = {#}"
  by (simp add: mset_rglob_Dir)

lemma mset_rglob_sort_listing:
  "mset (rglob (sort_listing d) rel) =
     image_mset (\<lambda>pe. (fst pe, sort_listing (snd pe))) (mset (rglob d rel))"
proof (induction d arbitrary: rel rule: sort_listing.induct)
  case (2 es)
  let ?g = "\<lambda>pe. (fst pe, sort_listing (snd pe))"
  have N: "(\<lambda>(n, e). (n, sort_listing e)) = ?g" by (simp add: fun_eq_iff)
  have sub: "mset (case sort_listing e of Dir _ \<Rightarrow> rglob (sort_listing e) r | _ \<Rightarrow> []) =
      image_mset ?g (mset (case e of Dir _ \<Rightarrow> rglob e r | _ \<Rightarrow> []))"
    if "(n, e) \<in> set es" for n e r
  proof (cases e rule: sort_listing.cases)
    case (2 cs)
    with "2.IH" [OF that refl, of r] show ?thesis by simp
  qed simp_all
  have map: "mset (rglob (Dir (map ?g xs)) rel) = image_mset ?g (mset (rglob (Dir xs) rel))"
    if "set xs \<subseteq> set es" for xs
    using that
  proof (induction xs)
    case Nil
    show ?case by (simp add: mset_rglob_Nil)
  next
    case (Cons x xs)
    obtain n e where x: "x = (n, e)" by (cases x)
    from Cons.prems x have m: "(n, e) \<in> set es" by simp
    from Cons.prems have "set xs \<subseteq> set es" by simp
    from Cons.IH [OF this] sub [OF m, of "rel @ [n]"] show ?case
      by (simp add: mset_rglob_Cons x)
  qed
  have "mset (rglob (sort_listing (Dir es)) rel) = mset (rglob (Dir (map ?g es)) rel)"
    by (simp only: sort_listing.simps N) (rule mset_rglob_perm, simp)
  with map [of es] show ?case by simp
qed (simp_all add: rglob.simps)

lemma mset_included_files_sort_listing:
  "mset (included_files (sort_listing d) spec mx) = mset (included_files d spec mx)"
proof -
  let ?g = "\<lambda>pe. (fst pe, sort_listing (snd pe))"
  let ?P = "\<lambda>pe. \<not> path_is_dir (snd pe) \<and> \<not> path_is_symlink (snd pe) \<and> \<not> spec (fst pe) \<and>
      st_size (snd pe) \<le> mx"
  have P: "(\<lambda>(p, e). \<not> path_is_dir e \<and> \<not> path_is_symlink e \<and> \<not> spec p \<and> st_size e \<le> mx) = ?P"
    by (simp add: fun_eq_iff)
  have id: "?g pe = pe" if "?P pe" for pe
  proof -
    obtain p e where pe: "pe = (p, e)" by (cases pe)
    from that pe obtain bs where "e = File bs"
      by (cases e) (auto simp: path_is_dir_def path_is_symlink_def)
    with pe show ?thesis by simp
  qed
  have "mset (included_files (sort_listing d) spec mx) =
      filter_mset ?P (image_mset ?g (mset (rglob d [])))"
    by (simp add: included_files_def collect_eq_filter P mset_rglob_sort_listing)
  also have "\<dots> = image_mset ?g (filter_mset ?P (mset (rglob d [])))"
    by (simp add: filter_mset_image_mset)
  also have "\<dots> = image_mset (\<lambda>pe. pe) (filter_mset ?P (mset (rglob d [])))"
    by (rule image_mset_cong) (simp add: id)
  finally show ?thesis
    by (simp add: included_files_def collect_eq_filter P)
qed


lemma sorted_included_sort_listing:
  assumes "wf_fs d"
  shows "sort_key fst (included_files (sort_listing d) spec mx) =
         sort_key fst (included_files d spec mx)"
proof (rule sort_key_inj_key_eq)
  show "mset (included_files (sort_listing d) spec mx) =
      mset (sort_key fst (included_files d spec mx))"
    by (simp add: mset_included_files_sort_listing)
  have "set (included_files (sort_listing d) spec mx) = set (included_files d spec mx)"
    by (rule mset_eq_setD) (rule mset_included_files_sort_listing)
  moreover have "inj_on fst (set (included_files d spec mx))"
  proof (rule inj_onI)
    fix x y
    assume x: "x \<in> set (included_files d spec mx)" and y: "y \<in> set (included_files d spec mx)"
      and f: "fst x = fst y"
    from included_files_lstat [OF assms, of "fst x" "snd x" spec mx] x
    have "lstat d (fst x) = Some (snd x)" by simp
    moreover from included_files_lstat [OF assms, of "fst y" "snd y" spec mx] y
    have "lstat d (fst y) = Some (snd y)" by simp
    ultimately have "snd x = snd y" using f by simp
    with f show "x = y" by (simp add: prod_eq_iff)
  qed
  ultimately show "inj_on fst (set (included_files (sort_listing d) spec mx))" by simp
  show "sorted (map fst (sort_key fst (included_files d spec mx)))" by simp
qed

lemma same_entries_tree:
  assumes "same_entries d1 d2"
  shows "format_tree (build_directory_tree nm rel d1 spec mx) pre il =
         format_tree (build_directory_tree nm rel d2 spec mx) pre il"
proof (rule format_tree_eqI)
  from assms have w: "wf_fs d1" "wf_fs d2" and s: "sort_listing d1 = sort_listing d2"
    by (simp_all add: same_entries_def)
  show "format_children (build_directory_tree nm rel d1 spec mx) pre il =
        format_children (build_directory_tree nm rel d2 spec mx) pre il"
    using format_children_sort_listing [OF w(1), of nm rel spec mx pre il]
      format_children_sort_listing [OF w(2), of nm rel spec mx pre il] s
    by simp
qed simp_all

lemma same_entries_included:
  assumes "same_entries d1 d2"
  shows "sort_key fst (included_files d1 spec mx) = sort_key fst (included_files d2 spec mx)"
proof -
  from assms have w: "wf_fs d1" "wf_fs d2" and s: "sort_listing d1 = sort_listing d2"
    by (simp_all add: same_entries_def)
  from sorted_included_sort_listing [OF w(1), of spec mx]
    sorted_included_sort_listing [OF w(2), of spec mx] s
  show ?thesis by simp
qed

lemma same_entries_follow:
  assumes "same_entries e1 e2"
  shows "same_entries (follow e1) (follow e2)"
  using assms follow_sort_listing [of e1] follow_sort_listing [of e2]
  by (simp add: same_entries_def wf_fs_follow)

lemma same_entries_cases:
  assumes "same_entries x y"
  shows "(\<exists>bs. x = File bs \<and> y = File bs) \<or> (\<exists>es es'. x = Dir es \<and> y = Dir es') \<or>
         (\<exists>t t'. x = Symlink t \<and> y = Symlink t')"
proof -
  from assms have s: "sort_listing x = sort_listing y" by (simp add: same_entries_def)
  show ?thesis
    using s by (cases x rule: sort_listing.cases; cases y rule: sort_listing.cases) auto
qed

lemma lookup_cases:
  assumes "rel_option same_entries (lookup w1 p) (lookup w2 p)"
  shows "(lookup w1 p = None \<and> lookup w2 p = None) \<or>
    (\<exists>e1 e2. lookup w1 p = Some e1 \<and> lookup w2 p = Some e2 \<and>
       ((\<exists>bs. follow e1 = File bs \<and> follow e2 = File bs) \<or>
        (\<exists>es es'. follow e1 = Dir es \<and> follow e2 = Dir es' \<and> same_entries (Dir es) (Dir es')) \<or>
        (\<exists>t t'. follow e1 = Symlink t \<and> follow e2 = Symlink t')))"
proof (cases "lookup w1 p")
  case None
  with assms have "lookup w2 p = None" by (cases "lookup w2 p") simp_all
  with None show ?thesis by simp
next
  case (Some e1)
  with assms obtain e2 where e2: "lookup w2 p = Some e2" and se: "same_entries e1 e2"
    by (cases "lookup w2 p") simp_all
  from se have sf: "same_entries (follow e1) (follow e2)" by (rule same_entries_follow)
  from same_entries_cases [OF sf] sf Some e2 show ?thesis
    by auto
qed

lemma same_entries_open_read:
  assumes "rel_option same_entries (lookup w1 p) (lookup w2 p)"
    and "read_fails w2 = read_fails w1"
  shows "open_read w2 p = open_read w1 p" and "path_exists w2 p = path_exists w1 p"
  using lookup_cases [OF assms(1)] assms(2)
  by (auto simp: open_read_def path_exists_def)

lemma same_entries_open_dir:
  assumes "rel_option same_entries (lookup w1 p) (lookup w2 p)"
  shows "(\<exists>e. open_dir w1 p = Inl e \<and> open_dir w2 p = Inl e) \<or>
         (\<exists>d1 d2. open_dir w1 p = Inr d1 \<and> open_dir w2 p = Inr d2 \<and> same_entries d1 d2)"
  using lookup_cases [OF assms]
  by (auto simp: open_dir_def)

lemma ex_same_entries: "same_entries ex_target ex_target_reordered"
  by (simp add: same_entries_def ex_target_def ex_target_reordered_def)

section \<open>The root of the tree\<close>

text \<open>
  Claim C9. The node that the tree builder returns for the target directory has
  \<open>ignored = False\<close> and \<open>size_exceeded = False\<close>, whatever the matcher answers: its line
  in the rendered tree is the connector, the directory marker, the name and a line break,
  with no annotation. The matcher is asked about descendants only, that is about non-empty
  relative paths: two matchers that agree on those build the same tree.
\<close>

theorem root_never_annotated:
  "ignored (build_directory_tree root_name [] target ignore_spec mx) = False \<and>
   size_exceeded (build_directory_tree root_name [] target ignore_spec mx) = False \<and>
   (\<exists>rest. format_tree (build_directory_tree root_name [] target ignore_spec mx) [] True =
      conn_last @ dir_icon @ root_name @ nl @ rest) \<and>
   ((\<forall>p. p \<noteq> [] \<longrightarrow> other_spec p = ignore_spec p) \<longrightarrow>
      build_directory_tree root_name [] target other_spec mx =
      build_directory_tree root_name [] target ignore_spec mx)"
  using build_directory_tree_cong_spec [of other_spec ignore_spec root_name "[]" target mx]
  by (simp add: format_tree_eq [of "build_directory_tree root_name [] target ignore_spec mx"]
      format_line_def annotation_def)

theorem root_never_annotated_witness:
  "ignored (build_directory_tree ''build'' [] ex_target (\<lambda>p. True) 5) = False \<and>
   size_exceeded (build_directory_tree ''build'' [] ex_target (\<lambda>p. True) 5) = False \<and>
   (\<exists>rest. format_tree (build_directory_tree ''build'' [] ex_target (\<lambda>p. True) 5) [] True =
      conn_last @ dir_icon @ ''build'' @ nl @ rest) \<and>
   build_directory_tree ''build'' [] ex_target (\<lambda>p. p \<noteq> []) 5 =
   build_directory_tree ''build'' [] ex_target (\<lambda>p. True) 5"
  using root_never_annotated [of "''build''" ex_target "\<lambda>p. True" 5 "\<lambda>p. p \<noteq> []"]
  by simp

section \<open>The order of siblings\<close>

text \<open>
  Claim C5. At every directory node, \<open>format_tree\<close> renders the node's own line and then
  its children in the order \<open>sort_desc\<close> gives them, a rearrangement of the children in
  which no file comes before a directory and, among the directories and among the files,
  names descend in lexicographic order. For the siblings \<open>b.txt\<close>, \<open>a.txt\<close> and the
  directory \<open>sub\<close> the order is \<open>sub\<close>, \<open>b.txt\<close>, \<open>a.txt\<close>.
\<close>

theorem sibling_order:
  assumes "is_dir node"
  shows "format_tree node pre is_last =
           format_line node pre is_last @
           concat (map (\<lambda>(i, child). format_tree child
                                        (pre @ (if is_last then ext_last else ext_mid))
                                        (i = length (children node) - 1))
                       (enumerate 0 (sort_desc (\<lambda>x. (is_dir x, name x)) (children node)))) \<and>
         mset (sort_desc (\<lambda>x. (is_dir x, name x)) (children node)) = mset (children node) \<and>
         (\<forall>i j. i < j \<and> j < length (children node) \<longrightarrow>
            (is_dir (sort_desc (\<lambda>x. (is_dir x, name x)) (children node) ! j) \<longrightarrow>
             is_dir (sort_desc (\<lambda>x. (is_dir x, name x)) (children node) ! i)) \<and>
            (is_dir (sort_desc (\<lambda>x. (is_dir x, name x)) (children node) ! i) =
             is_dir (sort_desc (\<lambda>x. (is_dir x, name x)) (children node) ! j) \<longrightarrow>
             name (sort_desc (\<lambda>x. (is_dir x, name x)) (children node) ! j) \<le>
             name (sort_desc (\<lambda>x. (is_dir x, name x)) (children node) ! i)))"
proof (intro conjI allI impI)
  show "format_tree node pre is_last =
           format_line node pre is_last @
           concat (map (\<lambda>(i, child). format_tree child
                                        (pre @ (if is_last then ext_last else ext_mid))
                                        (i = length (children node) - 1))
                       (enumerate 0 (sort_desc (\<lambda>x. (is_dir x, name x)) (children node))))"
    using assms by (simp add: format_tree_eq [of node] format_children_def)
next
  show "mset (sort_desc (\<lambda>x. (is_dir x, name x)) (children node)) = mset (children node)"
    by simp
next
  fix i j
  let ?cs = "sort_desc (\<lambda>x. (is_dir x, name x)) (children node)"
  assume ij: "i < j \<and> j < length (children node)"
  then have le: "(is_dir (?cs ! j), name (?cs ! j)) \<le> (is_dir (?cs ! i), name (?cs ! i))"
    using sort_desc_nth_le [of i j "children node" "\<lambda>x. (is_dir x, name x)"] by simp
  {
    assume "is_dir (?cs ! j)"
    with le show "is_dir (?cs ! i)"
      by (auto simp: less_eq_prod_def)
  }
  {
    assume "is_dir (?cs ! i) = is_dir (?cs ! j)"
    with le show "name (?cs ! j) \<le> name (?cs ! i)"
      by (auto simp: less_eq_prod_def)
  }
qed


theorem sibling_order_witness:
  "format_tree ex_siblings [] True =
     format_line ex_siblings [] True @
     format_tree (TreeNode ''sub'' True [] False False) ext_last False @
     format_tree (TreeNode ''b.txt'' False [] False False) ext_last False @
     format_tree (TreeNode ''a.txt'' False [] False False) ext_last True \<and>
   is_dir (sort_desc (\<lambda>x. (is_dir x, name x)) (children ex_siblings) ! 0) \<and>
   name (sort_desc (\<lambda>x. (is_dir x, name x)) (children ex_siblings) ! 2) \<le>
   name (sort_desc (\<lambda>x. (is_dir x, name x)) (children ex_siblings) ! 1)"
proof -
  have d: "is_dir ex_siblings"
    by (simp add: ex_siblings_def)
  have cs: "sort_desc (\<lambda>x. (is_dir x, name x)) (children ex_siblings) =
     [TreeNode ''sub'' True [] False False, TreeNode ''b.txt'' False [] False False,
      TreeNode ''a.txt'' False [] False False]"
    by (simp add: ex_siblings_def sort_desc_def less_eq_prod_def)
  have len: "length (children ex_siblings) = 3"
    by (simp add: ex_siblings_def)
  note so = sibling_order [OF d, of "[]" True]
  from so have fmt: "format_tree ex_siblings [] True =
     format_line ex_siblings [] True @
     format_tree (TreeNode ''sub'' True [] False False) ext_last False @
     format_tree (TreeNode ''b.txt'' False [] False False) ext_last False @
     format_tree (TreeNode ''a.txt'' False [] False False) ext_last True"
    by (simp add: cs len)
  from so have ord: "\<And>i j. i < j \<Longrightarrow> j < 3 \<Longrightarrow>
      (is_dir (sort_desc (\<lambda>x. (is_dir x, name x)) (children ex_siblings) ! i) =
       is_dir (sort_desc (\<lambda>x. (is_dir x, name x)) (children ex_siblings) ! j) \<longrightarrow>
       name (sort_desc (\<lambda>x. (is_dir x, name x)) (children ex_siblings) ! j) \<le>
       name (sort_desc (\<lambda>x. (is_dir x, name x)) (children ex_siblings) ! i))"
    by (simp add: len)
  from ord [of 1 2] have "name (sort_desc (\<lambda>x. (is_dir x, name x)) (children ex_siblings) ! 2) \<le>
      name (sort_desc (\<lambda>x. (is_dir x, name x)) (children ex_siblings) ! 1)"
    by (simp add: cs)
  with fmt show ?thesis by (simp add: cs)
qed

section \<open>Where the ignore rules are read\<close>

text \<open>
  Claim C10. The ignore rules are read at the path string of the command line, handed to
  the operating system as it is. What is loaded is decided by what the system holds at
  that very path: no rules when nothing is there, or only a link that does not resolve;
  the rules compiled from the bytes of the file that is there; an exception for a
  directory, for a file that cannot be read and for rules that do not compile. It does
  not depend on the target directory: a run with another target, or over a file system
  that differs anywhere but at that path (inside the target, say), loads the same rules.
  These are the rules of the run: an exception in loading them ends the run with the
  destination untouched, and the tree in the document of a run that completes is the one
  built with them.
\<close>

theorem ignore_file_path_as_given:
  "load_ignore_spec w a =
     (case lookup w (ignore_file a) of
        None \<Rightarrow> Inr (\<lambda>p. False)
      | Some entry \<Rightarrow>
          (case follow entry of
             Symlink t \<Rightarrow> Inr (\<lambda>p. False)
           | Dir es \<Rightarrow> Inl (if read_fails w (ignore_file a) then OSError else IsADirectoryError)
           | File bs \<Rightarrow>
               if read_fails w (ignore_file a) then Inl OSError
               else (case from_lines w bs of
                       None \<Rightarrow> Inl IgnoreRulesError
                     | Some rules \<Rightarrow> Inr rules))) \<and>
   (lookup w' (ignore_file a) = lookup w (ignore_file a) \<and>
    read_fails w' (ignore_file a) = read_fails w (ignore_file a) \<and>
    from_lines w' = from_lines w \<and> ignore_file a' = ignore_file a \<longrightarrow>
      load_ignore_spec w' a' = load_ignore_spec w a) \<and>
   (load_ignore_spec w a = Inl err \<longrightarrow> main w a = \<lparr>status = Some err, out_file = None\<rparr>) \<and>
   (load_ignore_spec w a = Inr spec \<and> open_dir w (target_dir a) = Inr target \<and>
    status (main w a) = None \<longrightarrow>
      (\<exists>doc. out_file (main w a) = Some doc \<and>
         sublist (format_tree (build_directory_tree (resolved_name w (target_dir a)) [] target
                                 spec (max_size a)) [] True) doc))"
proof (intro conjI impI; (elim conjE)?)
  show "load_ignore_spec w a =
     (case lookup w (ignore_file a) of
        None \<Rightarrow> Inr (\<lambda>p. False)
      | Some entry \<Rightarrow>
          (case follow entry of
             Symlink t \<Rightarrow> Inr (\<lambda>p. False)
           | Dir es \<Rightarrow> Inl (if read_fails w (ignore_file a) then OSError else IsADirectoryError)
           | File bs \<Rightarrow>
               if read_fails w (ignore_file a) then Inl OSError
               else (case from_lines w bs of
                       None \<Rightarrow> Inl IgnoreRulesError
                     | Some rules \<Rightarrow> Inr rules)))"
    by (simp add: load_ignore_spec_def path_exists_def open_read_def
        split: option.splits fsnode.splits)
next
  assume "lookup w' (ignore_file a) = lookup w (ignore_file a)"
    and "read_fails w' (ignore_file a) = read_fails w (ignore_file a)"
    and "from_lines w' = from_lines w" and "ignore_file a' = ignore_file a"
  then show "load_ignore_spec w' a' = load_ignore_spec w a"
    by (simp add: load_ignore_spec_def path_exists_def open_read_def
        split: option.splits fsnode.splits sum.splits)
next
  assume "load_ignore_spec w a = Inl err"
  then show "main w a = \<lparr>status = Some err, out_file = None\<rparr>"
    by (simp add: main_def)
next
  assume l: "load_ignore_spec w a = Inr spec" and t: "open_dir w (target_dir a) = Inr target"
    and s: "status (main w a) = None"
  let ?tree = "build_directory_tree (resolved_name w (target_dir a)) [] target spec (max_size a)"
  let ?xs = "sort_key fst (included_files target spec (max_size a))"
  from s l t obtain ctx where k: "\<not> walk_fails w (target_dir a)" "writable w (output_path a)"
    and c: "context_section w a = Inr ctx"
    and en: "encodable w (format_tree ?tree [] True)"
    and n: "fst (write_files w a (preamble ctx ?tree) ?xs) = None"
    by (auto elim!: status_main_None)
  have "format_tree ?tree [] True \<in> set (snd (write_files w a (preamble ctx ?tree) ?xs))"
    by (simp add: write_files_blocks [OF n]) (simp add: preamble_def)
  then have "sublist (format_tree ?tree [] True)
      (concat (snd (write_files w a (preamble ctx ?tree) ?xs)))"
    by (rule sublist_concat_member)
  then show "\<exists>doc. out_file (main w a) = Some doc \<and> sublist (format_tree ?tree [] True) doc"
    by (simp add: main_loop [OF l t k c en])
qed

theorem ignore_file_path_as_given_witness:
  "load_ignore_spec ex_env ex_args = Inr (\<lambda>p. path_str p = ''secret.txt'') \<and>
   lookup ex_env ''proj/.context.ignore'' = Some (File ''a.txt'') \<and>
   load_ignore_spec
     (ex_env\<lparr>lookup := (lookup ex_env)(''proj'' := None, ''proj/.context.ignore'' := None)\<rparr>)
     (ex_args\<lparr>target_dir := ''elsewhere''\<rparr>) =
   load_ignore_spec ex_env ex_args \<and>
   (\<exists>doc. out_file (main ex_env ex_args) = Some doc \<and>
      sublist (format_tree (build_directory_tree ''proj'' [] ex_target
                              (\<lambda>p. path_str p = ''secret.txt'') 5) [] True) doc)"
proof -
  note t = ignore_file_path_as_given [where w = ex_env and a = ex_args
      and w' = "ex_env\<lparr>lookup := (lookup ex_env)(''proj'' := None, ''proj/.context.ignore'' := None)\<rparr>"
      and a' = "ex_args\<lparr>target_dir := ''elsewhere''\<rparr>"
      and spec = "\<lambda>p. path_str p = ''secret.txt''" and target = ex_target]
  from t have 1: "load_ignore_spec ex_env ex_args = Inr (\<lambda>p. path_str p = ''secret.txt'')"
    by (simp add: ex_env_def ex_args_def)
  have 2: "lookup ex_env ''proj/.context.ignore'' = Some (File ''a.txt'')"
    by (simp add: ex_env_def)
  from t have 3: "load_ignore_spec
     (ex_env\<lparr>lookup := (lookup ex_env)(''proj'' := None, ''proj/.context.ignore'' := None)\<rparr>)
     (ex_args\<lparr>target_dir := ''elsewhere''\<rparr>) =
   load_ignore_spec ex_env ex_args"
    by (simp add: ex_args_def)
  from t 1 ex_target_dir ex_status
  have 4: "\<exists>doc. out_file (main ex_env ex_args) = Some doc \<and>
      sublist (format_tree (build_directory_tree (resolved_name ex_env (target_dir ex_args)) []
                 ex_target (\<lambda>p. path_str p = ''secret.txt'') (max_size ex_args)) [] True) doc"
    by blast
  have "resolved_name ex_env (target_dir ex_args) = ''proj''" "max_size ex_args = 5"
    by (simp_all add: ex_env_def ex_args_def)
  with 1 2 3 4 show ?thesis by simp
qed

section \<open>A missing context file\<close>

text \<open>
  Claim C1, as amended. When a non-empty context path is given at which nothing exists
  (nothing at all, or a link that does not resolve), and which does not name the output
  destination itself, the run fails and no byte of the document is written. The context file is opened only after the output destination has
  been opened for writing (line 109 before line 112). When loading the ignore rules,
  listing or walking the target, or opening the destination fails, that exception ends the
  run and the destination is not touched. Otherwise the run ends with \<open>FileNotFoundError\<close>
  and leaves the destination created or truncated, holding nothing.
\<close>

theorem missing_context_file:
  assumes "context_file a = Some p" and "p \<noteq> []" and "\<not> path_exists w p"
    and "p \<noteq> output_path a" and "\<not> same_file w p (output_path a)"
  shows "main w a =
     (case load_ignore_spec w a of
        Inl e \<Rightarrow> \<lparr>status = Some e, out_file = None\<rparr>
      | Inr spec \<Rightarrow>
          (case open_dir w (target_dir a) of
             Inl e \<Rightarrow> \<lparr>status = Some e, out_file = None\<rparr>
           | Inr target \<Rightarrow>
               if walk_fails w (target_dir a) then \<lparr>status = Some OSError, out_file = None\<rparr>
               else if writable w (output_path a)
                 then \<lparr>status = Some FileNotFoundError, out_file = Some []\<rparr>
                 else \<lparr>status = Some OutputOpenError, out_file = None\<rparr>)) \<and>
   status (main w a) \<noteq> None \<and>
   (out_file (main w a) = None \<or> out_file (main w a) = Some [])"
proof -
  from assms have c: "context_section w a = Inl FileNotFoundError"
    by (auto simp: context_section_def open_context_def open_read_def path_exists_def
        split: option.splits fsnode.splits)
  then show ?thesis
    by (auto simp: main_def Let_def split: sum.splits)
qed

text \<open>
  The claim as stated fails in two ways. A destination that held a document before the
  run is empty after it. And when the missing context file is the destination itself, the
  run finds the file it has just created, reads nothing from it, and completes.
\<close>

theorem missing_context_file_counterexample:
  "context_file ex_args_missing = Some ''missing.md'' \<and>
   lookup ex_env ''missing.md'' = None \<and>
   destination_after (Some ''old'') (main ex_env ex_args_missing) = Some [] \<and>
   context_file (ex_args\<lparr>context_file := Some ''context.md''\<rparr>) = Some ''context.md'' \<and>
   output_path (ex_args\<lparr>context_file := Some ''context.md''\<rparr>) = ''context.md'' \<and>
   lookup ex_env ''context.md'' = None \<and>
   status (main ex_env (ex_args\<lparr>context_file := Some ''context.md''\<rparr>)) = None"
proof -
  have l: "load_ignore_spec ex_env ex_args_missing = Inr (\<lambda>p. path_str p = ''secret.txt'')"
    by (simp add: load_ignore_spec_def path_exists_def open_read_def ex_env_def
        ex_args_missing_def ex_args_def)
  have c: "context_section ex_env ex_args_missing = Inl FileNotFoundError"
    by (simp add: context_section_def open_context_def open_read_def ex_env_def
        ex_args_missing_def ex_args_def)
  have t: "open_dir ex_env (target_dir ex_args_missing) = Inr ex_target"
    using ex_open_dir by (simp add: ex_args_missing_def ex_args_def)
  have k: "\<not> walk_fails ex_env (target_dir ex_args_missing)"
    "writable ex_env (output_path ex_args_missing)"
    by (simp_all add: ex_env_def)
  have m: "main ex_env ex_args_missing = \<lparr>status = Some FileNotFoundError, out_file = Some []\<rparr>"
    using l t k c by (rule main_context_failure)
  let ?same = "ex_args\<lparr>context_file := Some ''context.md''\<rparr>"
  have l': "load_ignore_spec ex_env ?same = Inr (\<lambda>p. path_str p = ''secret.txt'')"
    by (simp add: load_ignore_spec_def path_exists_def open_read_def ex_env_def ex_args_def)
  have t': "open_dir ex_env (target_dir ?same) = Inr ex_target"
    using ex_open_dir by (simp add: ex_args_def)
  have c': "context_section ex_env ?same = Inr [''# Context Overview'' @ nl @ nl @ [] @ nl @ nl]"
    by (simp add: context_section_def open_context_def ex_env_def ex_args_def)
  have s: "status (main ex_env ?same) = None"
    using l' t' c' by (simp add: status_main ex_completes) (simp add: ex_env_def)
  from m s show ?thesis
    by (simp add: destination_after_def ex_args_missing_def ex_args_def ex_env_def)
qed

theorem missing_context_file_witness:
  "main ex_env ex_args_missing = \<lparr>status = Some FileNotFoundError, out_file = Some []\<rparr>"
proof -
  have 1: "context_file ex_args_missing = Some ''missing.md''"
    by (simp add: ex_args_missing_def)
  have 2: "\<not> path_exists ex_env ''missing.md''"
    by (simp add: path_exists_def ex_env_def)
  have 3: "''missing.md'' \<noteq> output_path ex_args_missing"
    "\<not> same_file ex_env ''missing.md'' (output_path ex_args_missing)"
    by (simp_all add: ex_args_missing_def ex_args_def ex_env_def)
  have 4: "load_ignore_spec ex_env ex_args_missing = Inr (\<lambda>p. path_str p = ''secret.txt'')"
    by (simp add: load_ignore_spec_def path_exists_def open_read_def ex_env_def
        ex_args_missing_def ex_args_def)
  have 5: "open_dir ex_env (target_dir ex_args_missing) = Inr ex_target"
    using ex_open_dir by (simp add: ex_args_missing_def ex_args_def)
  have 6: "\<not> walk_fails ex_env (target_dir ex_args_missing)"
    "writable ex_env (output_path ex_args_missing)"
    by (simp_all add: ex_env_def)
  from missing_context_file [OF 1 _ 2 3] 4 5 6 show ?thesis by simp
qed

section \<open>The size limit\<close>



section \<open>Ignored paths\<close>

text \<open>
  Claim C3. An entry whose relative path the ignore rules match has a node in the tree,
  at that path, with \<open>ignored\<close> set; the rendered tree holds its line with the annotation
  \<open>(ignored)\<close>, or \<open>(ignored, size exceeded)\<close> for a file over the limit; and no collected
  file and no content block has its path, whatever its size.
\<close>

theorem ignored_paths:
  assumes "lstat target p = Some e" and "p \<noteq> []" and "spec p"
  shows "(\<exists>n. node_at (build_directory_tree nm [] target spec mx) p = Some n \<and>
              name n = last p \<and> ignored n) \<and>
         (\<exists>pre il. sublist
            (pre @ (if il then conn_last else conn_mid) @
             (if path_is_dir e then dir_icon else file_icon) @ last p @
             '' (ignored'' @ (if path_is_file e \<and> mx < st_size e then '', size exceeded'' else []) @
             '')'' @ nl)
            (format_tree (build_directory_tree nm [] target spec mx) [] True)) \<and>
         p \<notin> fst ` set (included_files target spec mx) \<and>
         p \<notin> fst ` set (content_blocks w (sort_key fst (included_files target spec mx)))"
proof -
  let ?n = "build_entry spec mx (butlast p) (last p, e)"
  from assms(2) have p: "butlast p @ [last p] = p" by simp
  have ign: "ignored ?n" using assms(3) p by simp
  have "format_line ?n pre il =
      pre @ (if il then conn_last else conn_mid) @
      (if path_is_dir e then dir_icon else file_icon) @ last p @
      '' (ignored'' @ (if path_is_file e \<and> mx < st_size e then '', size exceeded'' else []) @
      '')'' @ nl" for pre il
    using assms(3) p by (simp add: format_line_def annotation_def)
  with rendered_entry(2) [OF assms(1,2), of spec mx nm]
  have line: "\<exists>pre il. sublist
            (pre @ (if il then conn_last else conn_mid) @
             (if path_is_dir e then dir_icon else file_icon) @ last p @
             '' (ignored'' @ (if path_is_file e \<and> mx < st_size e then '', size exceeded'' else []) @
             '')'' @ nl)
            (format_tree (build_directory_tree nm [] target spec mx) [] True)"
    by metis
  have out: "p \<notin> fst ` set (included_files target spec mx)"
    using assms(3) by (auto simp: included_files_iff)
  from rendered_entry(1) [OF assms(1,2), of nm spec mx] ign line out show ?thesis
    by (simp add: blocks_subset_included)
qed

theorem ignored_paths_witness:
  "(\<exists>n. node_at (build_directory_tree ''proj'' [] ex_target (\<lambda>p. path_str p = ''secret.txt'') 5)
           [''secret.txt''] = Some n \<and>
        name n = ''secret.txt'' \<and> ignored n) \<and>
   (\<exists>pre il. sublist
      (pre @ (if il then conn_last else conn_mid) @ file_icon @ ''secret.txt (ignored)'' @ nl)
      (format_tree (build_directory_tree ''proj'' [] ex_target (\<lambda>p. path_str p = ''secret.txt'') 5)
         [] True)) \<and>
   [''secret.txt''] \<notin> fst ` set (included_files ex_target (\<lambda>p. path_str p = ''secret.txt'') 5)"
proof -
  have s: "path_str [''secret.txt''] = ''secret.txt''"
    by (simp add: path_str_def)
  have k: "\<not> path_is_dir (File ''s'')" "\<not> (5::int) < st_size (File ''s'')"
    by (simp_all add: path_is_dir_def st_size_def)
  from ignored_paths [where target = ex_target and p = "[''secret.txt'']" and e = "File ''s''"
      and spec = "\<lambda>p. path_str p = ''secret.txt''" and nm = "''proj''" and mx = 5 and w = ex_env,
      OF ex_lstat_secret _ s] k
  show ?thesis by simp
qed

section \<open>Symbolic links\<close>

text \<open>
  Claim C4. A symbolic link below the target is never collected and has no content block,
  whatever it points to.
\<close>

theorem symlink_never_collected:
  assumes "wf_fs target" and "lstat target p = Some e" and "path_is_symlink e"
  shows "p \<notin> fst ` set (included_files target spec mx) \<and>
         p \<notin> fst ` set (content_blocks w (sort_key fst (included_files target spec mx)))"
proof -
  have "p \<notin> fst ` set (included_files target spec mx)"
  proof
    assume "p \<in> fst ` set (included_files target spec mx)"
    then obtain e' where e': "(p, e') \<in> set (included_files target spec mx)" by auto
    from included_files_lstat [OF assms(1) e'] assms(2) have "e' = e" by simp
    with e' assms(3) show False by (simp add: included_files_iff)
  qed
  then show ?thesis by (simp add: blocks_subset_included)
qed

theorem symlink_never_collected_witness:
  "[''sub'', ''ln''] \<notin> fst ` set (included_files ex_target (\<lambda>p. False) 5) \<and>
   [''sub'', ''ln''] \<notin> fst ` set (content_blocks ex_env
      (sort_key fst (included_files ex_target (\<lambda>p. False) 5)))"
proof -
  have "path_is_symlink (Symlink (Some (File ''t'')))"
    by (simp add: path_is_symlink_def)
  from symlink_never_collected [OF ex_wf ex_lstat_ln this] show ?thesis .
qed

section \<open>Files that do not decode\<close>

text \<open>
  Claim C6. A collected file whose bytes do not decode is skipped: the loop writes
  nothing for it, neither heading nor fence, and goes on with the files that follow, so
  that the run ends as it would have ended without that file, with the same status and
  the same document, and no block of the document has its path. No other exception is
  recovered. In the loop, any other failure of the read, and any text that does not
  encode, ends the run at once. Before the loop, a failure of the ignore rules, of the
  listing or the walk of the target, of the opening of the destination, of the context
  file (a context file that does not decode included) or of the encoding of the tree ends
  the run. A loop in which every read succeeds and every heading and fence encodes runs
  to its end whatever decodes and whatever does not.
\<close>

theorem decode_errors_skipped:
  "(read_collected w a out p e = Inl UnicodeDecodeError \<longrightarrow>
      write_files w a out ((p, e) # rest) = write_files w a out rest \<and>
      written_blocks w a out ((p, e) # rest) = written_blocks w a out rest) \<and>
   (read_collected w a out p e = Inl err \<and> err \<noteq> UnicodeDecodeError \<longrightarrow>
      write_files w a out ((p, e) # rest) = (Some err, out)) \<and>
   (read_collected w a out p e = Inr c \<and> \<not> encodable w (''## File: '' @ path_str p @ nl) \<longrightarrow>
      write_files w a out ((p, e) # rest) = (Some UnicodeEncodeError, out)) \<and>
   (read_collected w a out p e = Inr c \<and> encodable w (''## File: '' @ path_str p @ nl) \<and>
    \<not> encodable w (''```'' @ lstrip (CHR ''.'') (path_suffix (last p)) @ nl) \<longrightarrow>
      write_files w a out ((p, e) # rest) =
        (Some UnicodeEncodeError, out @ [''## File: '' @ path_str p @ nl])) \<and>
   (\<not> read_fails_at w (target_dir a) p \<and> \<not> output_at w (output_path a) (target_dir a) p \<and>
    read_text w (file_bytes e) = None \<longrightarrow>
      read_collected w a out p e = Inl UnicodeDecodeError \<and>
      write_files w a out xs = write_files w a out (removeAll (p, e) xs) \<and>
      (wf_fs target \<and> (p, e) \<in> set (included_files target spec (max_size a)) \<longrightarrow>
         p \<notin> fst ` set (written_blocks w a out
                (sort_key fst (included_files target spec (max_size a))))) \<and>
      (load_ignore_spec w a = Inr spec \<and> open_dir w (target_dir a) = Inr target \<and>
       \<not> walk_fails w (target_dir a) \<and> writable w (output_path a) \<and>
       context_section w a = Inr ctx \<and>
       encodable w (format_tree (build_directory_tree (resolved_name w (target_dir a)) []
                                   target spec (max_size a)) [] True) \<longrightarrow>
         main w a =
           \<lparr>status = fst (write_files w a
               (preamble ctx (build_directory_tree (resolved_name w (target_dir a)) []
                                target spec (max_size a)))
               (removeAll (p, e) (sort_key fst (included_files target spec (max_size a))))),
            out_file = Some (concat (snd (write_files w a
               (preamble ctx (build_directory_tree (resolved_name w (target_dir a)) []
                                target spec (max_size a)))
               (removeAll (p, e) (sort_key fst (included_files target spec (max_size a)))))))\<rparr>)) \<and>
   ((\<forall>q en. (q, en) \<in> set xs \<longrightarrow>
        \<not> read_fails_at w (target_dir a) q \<and>
        encodable w (''## File: '' @ path_str q @ nl) \<and>
        encodable w (''```'' @ lstrip (CHR ''.'') (path_suffix (last q)) @ nl)) \<longrightarrow>
      fst (write_files w a out xs) = None) \<and>
   status (main w a) =
     (case load_ignore_spec w a of
        Inl e \<Rightarrow> Some e
      | Inr spec \<Rightarrow>
          (case open_dir w (target_dir a) of
             Inl e \<Rightarrow> Some e
           | Inr target \<Rightarrow>
               if walk_fails w (target_dir a) then Some OSError
               else if \<not> writable w (output_path a) then Some OutputOpenError
               else (case context_section w a of
                       Inl e \<Rightarrow> Some e
                     | Inr ctx \<Rightarrow>
                         if \<not> encodable w (format_tree (build_directory_tree
                               (resolved_name w (target_dir a)) [] target spec (max_size a)) [] True)
                         then Some UnicodeEncodeError
                         else fst (write_files w a
                                (preamble ctx (build_directory_tree
                                   (resolved_name w (target_dir a)) [] target spec (max_size a)))
                                (sort_key fst (included_files target spec (max_size a)))))))"
proof (intro conjI impI; (elim conjE)?)
  assume "read_collected w a out p e = Inl UnicodeDecodeError"
  then show "write_files w a out ((p, e) # rest) = write_files w a out rest"
    and "written_blocks w a out ((p, e) # rest) = written_blocks w a out rest"
    by simp_all
next
  assume "read_collected w a out p e = Inl err" and "err \<noteq> UnicodeDecodeError"
  then show "write_files w a out ((p, e) # rest) = (Some err, out)"
    by simp
next
  assume "read_collected w a out p e = Inr c"
    and "\<not> encodable w (''## File: '' @ path_str p @ nl)"
  then show "write_files w a out ((p, e) # rest) = (Some UnicodeEncodeError, out)"
    by (simp add: stream_write_def)
next
  assume "read_collected w a out p e = Inr c"
    and "encodable w (''## File: '' @ path_str p @ nl)"
    and "\<not> encodable w (''```'' @ lstrip (CHR ''.'') (path_suffix (last p)) @ nl)"
  then show "write_files w a out ((p, e) # rest) =
        (Some UnicodeEncodeError, out @ [''## File: '' @ path_str p @ nl])"
    by (simp add: stream_write_def)
next
  assume r: "\<not> read_fails_at w (target_dir a) p"
    and o: "\<not> output_at w (output_path a) (target_dir a) p"
    and d: "read_text w (file_bytes e) = None"
  from r o d show "read_collected w a out p e = Inl UnicodeDecodeError"
    by (simp add: read_collected_def)
  from r o d show "write_files w a out xs = write_files w a out (removeAll (p, e) xs)"
    by (rule write_files_removeAll)
  {
    assume wf: "wf_fs target" and inc: "(p, e) \<in> set (included_files target spec (max_size a))"
    have "read_text w (file_bytes e') = None"
      if "(p, e') \<in> set (sort_key fst (included_files target spec (max_size a)))" for e'
    proof -
      from that have "(p, e') \<in> set (included_files target spec (max_size a))" by simp
      from included_files_lstat [OF wf this] included_files_lstat [OF wf inc]
      have "e' = e" by simp
      with d show ?thesis by simp
    qed
    with r o
    show "p \<notin> fst ` set (written_blocks w a out
                (sort_key fst (included_files target spec (max_size a))))"
      by (rule written_blocks_skips)
  }
  {
    let ?tree = "build_directory_tree (resolved_name w (target_dir a)) [] target spec (max_size a)"
    assume l: "load_ignore_spec w a = Inr spec" and t: "open_dir w (target_dir a) = Inr target"
      and k: "\<not> walk_fails w (target_dir a)" "writable w (output_path a)"
      and c: "context_section w a = Inr ctx"
      and en: "encodable w (format_tree ?tree [] True)"
    show "main w a =
           \<lparr>status = fst (write_files w a (preamble ctx ?tree)
               (removeAll (p, e) (sort_key fst (included_files target spec (max_size a))))),
            out_file = Some (concat (snd (write_files w a (preamble ctx ?tree)
               (removeAll (p, e) (sort_key fst (included_files target spec (max_size a)))))))\<rparr>"
      unfolding main_loop [OF l t k c en]
      using write_files_removeAll [OF r o d, of "preamble ctx ?tree"
          "sort_key fst (included_files target spec (max_size a))"]
      by simp
  }
next
  assume "\<forall>q en. (q, en) \<in> set xs \<longrightarrow>
        \<not> read_fails_at w (target_dir a) q \<and>
        encodable w (''## File: '' @ path_str q @ nl) \<and>
        encodable w (''```'' @ lstrip (CHR ''.'') (path_suffix (last q)) @ nl)"
  then show "fst (write_files w a out xs) = None"
    by (intro write_files_completes) blast
next
  show "status (main w a) =
     (case load_ignore_spec w a of
        Inl e \<Rightarrow> Some e
      | Inr spec \<Rightarrow>
          (case open_dir w (target_dir a) of
             Inl e \<Rightarrow> Some e
           | Inr target \<Rightarrow>
               if walk_fails w (target_dir a) then Some OSError
               else if \<not> writable w (output_path a) then Some OutputOpenError
               else (case context_section w a of
                       Inl e \<Rightarrow> Some e
                     | Inr ctx \<Rightarrow>
                         if \<not> encodable w (format_tree (build_directory_tree
                               (resolved_name w (target_dir a)) [] target spec (max_size a)) [] True)
                         then Some UnicodeEncodeError
                         else fst (write_files w a
                                (preamble ctx (build_directory_tree
                                   (resolved_name w (target_dir a)) [] target spec (max_size a)))
                                (sort_key fst (included_files target spec (max_size a)))))))"
    by (rule status_main)
qed

theorem decode_errors_skipped_witness:
  "status (main ex_env ex_args) = None \<and>
   ([''bin.dat''], File [CHR 0xFF]) \<in> set (included_files ex_target (\<lambda>p. path_str p = ''secret.txt'') 5) \<and>
   read_collected ex_env ex_args [] [''bin.dat''] (File [CHR 0xFF]) = Inl UnicodeDecodeError \<and>
   [''bin.dat''] \<notin> fst ` set (written_blocks ex_env ex_args []
      (sort_key fst (included_files ex_target (\<lambda>p. path_str p = ''secret.txt'') 5))) \<and>
   main ex_env ex_args =
     \<lparr>status = None,
      out_file = Some (concat (snd (write_files ex_env ex_args
        (preamble [''# Context Overview'' @ nl @ nl @ ''hello'' @ nl @ nl]
           (build_directory_tree ''proj'' [] ex_target (\<lambda>p. path_str p = ''secret.txt'') 5))
        (removeAll ([''bin.dat''], File [CHR 0xFF])
           (sort_key fst (included_files ex_target (\<lambda>p. path_str p = ''secret.txt'') 5))))))\<rparr>"
proof -
  have inc: "([''bin.dat''], File [CHR 0xFF]) \<in>
      set (included_files ex_target (\<lambda>p. path_str p = ''secret.txt'') 5)"
    by (rule included_files_real [OF ex_lstat_real_bin]) (simp_all add: path_str_def)
  have k: "\<not> read_fails_at ex_env (target_dir ex_args) [''bin.dat'']"
    "\<not> output_at ex_env (output_path ex_args) (target_dir ex_args) [''bin.dat'']"
    "\<not> walk_fails ex_env (target_dir ex_args)" "encodable ex_env s"
    "resolved_name ex_env (target_dir ex_args) = ''proj''" "max_size ex_args = 5" for s
    by (simp_all add: ex_env_def ex_args_def)
  from decode_errors_skipped [where w = ex_env and a = ex_args and target = ex_target
      and p = "[''bin.dat'']" and e = "File [CHR 0xFF]" and out = "[]"
      and spec = "\<lambda>p. path_str p = ''secret.txt''"
      and ctx = "[''# Context Overview'' @ nl @ nl @ ''hello'' @ nl @ nl]"]
    ex_wf inc ex_read_bin ex_load ex_target_dir ex_writable ex_context k ex_status
  show ?thesis by (simp add: ex_completes)
qed

section \<open>The order of the document\<close>

text \<open>
  Claim C8. The document of a run that completes is, in this order: the context section
  (empty unless a non-empty context path was given, and then the heading and the decoded
  text of the file at that path, which is empty when that path names the destination
  itself), the structure section with the rendered tree between fences, and the file
  contents, one block for each collected file whose text was read, in ascending order of
  path. Paths are ordered as lists of components. The block of a collected file other
  than the destination holds the text of the file as it was collected, and every such
  file that decodes has its block. The block of a collected file that is the destination
  holds the text of what had been flushed to it when it was read.
\<close>

theorem document_order:
  assumes "status (main w a) = None"
  shows "\<exists>spec target ctx.
      load_ignore_spec w a = Inr spec \<and> open_dir w (target_dir a) = Inr target \<and>
      out_file (main w a) = Some (
        concat ctx @
        ''# Codebase Structure'' @ nl @ nl @ ''```'' @ nl @
        format_tree (build_directory_tree (resolved_name w (target_dir a)) [] target spec
                       (max_size a)) [] True @
        ''```'' @ nl @ nl @
        ''# File Contents'' @ nl @ nl @
        concat (map (\<lambda>(p, c). file_block p c)
          (written_blocks w a
             (preamble ctx (build_directory_tree (resolved_name w (target_dir a)) [] target spec
                              (max_size a)))
             (sort_key fst (included_files target spec (max_size a)))))) \<and>
      (case context_file a of
         None \<Rightarrow> ctx = []
       | Some path \<Rightarrow>
           if path = [] then ctx = []
           else \<exists>bs txt.
                  (if path = output_path a \<or> same_file w path (output_path a) then bs = []
                   else open_read w path = Inr bs) \<and>
                  read_text w bs = Some txt \<and>
                  ctx = [''# Context Overview'' @ nl @ nl @ txt @ nl @ nl]) \<and>
      sorted (map fst (sort_key fst (included_files target spec (max_size a)))) \<and>
      set (sort_key fst (included_files target spec (max_size a))) =
        set (included_files target spec (max_size a)) \<and>
      sorted (map fst (written_blocks w a
         (preamble ctx (build_directory_tree (resolved_name w (target_dir a)) [] target spec
                          (max_size a)))
         (sort_key fst (included_files target spec (max_size a))))) \<and>
      fst ` set (written_blocks w a
         (preamble ctx (build_directory_tree (resolved_name w (target_dir a)) [] target spec
                          (max_size a)))
         (sort_key fst (included_files target spec (max_size a))))
        \<subseteq> fst ` set (included_files target spec (max_size a)) \<and>
      (\<forall>p c. (p, c) \<in> set (written_blocks w a
                 (preamble ctx (build_directory_tree (resolved_name w (target_dir a)) [] target
                                  spec (max_size a)))
                 (sort_key fst (included_files target spec (max_size a)))) \<and>
             \<not> output_at w (output_path a) (target_dir a) p \<longrightarrow>
         (\<exists>e. (p, e) \<in> set (included_files target spec (max_size a)) \<and>
              read_text w (file_bytes e) = Some c)) \<and>
      (\<forall>p e c. (p, e) \<in> set (included_files target spec (max_size a)) \<and>
             \<not> output_at w (output_path a) (target_dir a) p \<and>
             read_text w (file_bytes e) = Some c \<longrightarrow>
         (p, c) \<in> set (written_blocks w a
                 (preamble ctx (build_directory_tree (resolved_name w (target_dir a)) [] target
                                  spec (max_size a)))
                 (sort_key fst (included_files target spec (max_size a))))) \<and>
      (\<forall>bs1 p c bs2.
         written_blocks w a
           (preamble ctx (build_directory_tree (resolved_name w (target_dir a)) [] target
                            spec (max_size a)))
           (sort_key fst (included_files target spec (max_size a))) = bs1 @ (p, c) # bs2 \<and>
         output_at w (output_path a) (target_dir a) p \<longrightarrow>
         read_text w (visible w
           (preamble ctx (build_directory_tree (resolved_name w (target_dir a)) [] target
                            spec (max_size a)) @
            concat (map (\<lambda>(p, c). block_chunks p c) bs1))) = Some c) \<and>
      ((\<forall>p e. (p, e) \<in> set (included_files target spec (max_size a)) \<longrightarrow>
              \<not> output_at w (output_path a) (target_dir a) p) \<longrightarrow>
         written_blocks w a
           (preamble ctx (build_directory_tree (resolved_name w (target_dir a)) [] target
                            spec (max_size a)))
           (sort_key fst (included_files target spec (max_size a))) =
         content_blocks w (sort_key fst (included_files target spec (max_size a))))"
proof -
  from assms obtain spec target ctx where l: "load_ignore_spec w a = Inr spec"
    and t: "open_dir w (target_dir a) = Inr target"
    and k: "\<not> walk_fails w (target_dir a)" "writable w (output_path a)"
    and c: "context_section w a = Inr ctx"
    and en: "encodable w (format_tree (build_directory_tree (resolved_name w (target_dir a)) []
                                         target spec (max_size a)) [] True)"
    and n: "fst (write_files w a
           (preamble ctx (build_directory_tree (resolved_name w (target_dir a)) []
                            target spec (max_size a)))
           (sort_key fst (included_files target spec (max_size a)))) = None"
    by (rule status_main_None)
  let ?tree = "build_directory_tree (resolved_name w (target_dir a)) [] target spec (max_size a)"
  let ?xs = "sort_key fst (included_files target spec (max_size a))"
  let ?bl = "written_blocks w a (preamble ctx ?tree) ?xs"
  have s1: "sorted (map fst ?xs)"
    by simp
  then have s2: "sorted (map fst ?bl)"
    by (rule sorted_written_blocks)
  have st: "set ?xs = set (included_files target spec (max_size a))"
    by simp
  have sub: "fst ` set ?bl \<subseteq> fst ` set (included_files target spec (max_size a))"
    using fst_written_blocks_subset [of w a "preamble ctx ?tree" ?xs] by simp
  have cx: "case context_file a of
         None \<Rightarrow> ctx = []
       | Some path \<Rightarrow>
           if path = [] then ctx = []
           else \<exists>bs txt.
                  (if path = output_path a \<or> same_file w path (output_path a) then bs = []
                   else open_read w path = Inr bs) \<and>
                  read_text w bs = Some txt \<and>
                  ctx = [''# Context Overview'' @ nl @ nl @ txt @ nl @ nl]"
    using c
    by (auto simp: context_section_def open_context_def
        split: option.splits sum.splits if_splits)
  have doc: "out_file (main w a) = Some (
        concat ctx @
        ''# Codebase Structure'' @ nl @ nl @ ''```'' @ nl @
        format_tree ?tree [] True @
        ''```'' @ nl @ nl @
        ''# File Contents'' @ nl @ nl @
        concat (map (\<lambda>(p, c). file_block p c) ?bl))"
    by (simp add: main_loop [OF l t k c en] document_blocks [OF n]) (simp add: preamble_def)
  have b1: "\<forall>p c. (p, c) \<in> set ?bl \<and> \<not> output_at w (output_path a) (target_dir a) p \<longrightarrow>
         (\<exists>e. (p, e) \<in> set (included_files target spec (max_size a)) \<and>
              read_text w (file_bytes e) = Some c)"
  proof (intro allI impI, elim conjE)
    fix p c assume "(p, c) \<in> set ?bl" "\<not> output_at w (output_path a) (target_dir a) p"
    from written_blocks_text [OF this]
    show "\<exists>e. (p, e) \<in> set (included_files target spec (max_size a)) \<and>
              read_text w (file_bytes e) = Some c"
      by simp
  qed
  have b2: "\<forall>p e c. (p, e) \<in> set (included_files target spec (max_size a)) \<and>
             \<not> output_at w (output_path a) (target_dir a) p \<and>
             read_text w (file_bytes e) = Some c \<longrightarrow> (p, c) \<in> set ?bl"
  proof (intro allI impI, elim conjE)
    fix p e c assume "(p, e) \<in> set (included_files target spec (max_size a))"
      and o: "\<not> output_at w (output_path a) (target_dir a) p"
      and r: "read_text w (file_bytes e) = Some c"
    then have "(p, e) \<in> set ?xs" by simp
    from written_blocks_has [OF n this o r] show "(p, c) \<in> set ?bl" .
  qed
  have b3: "\<forall>bs1 p c bs2. ?bl = bs1 @ (p, c) # bs2 \<and>
         output_at w (output_path a) (target_dir a) p \<longrightarrow>
         read_text w (visible w
           (preamble ctx ?tree @ concat (map (\<lambda>(p, c). block_chunks p c) bs1))) = Some c"
    by (intro allI impI, elim conjE) (rule written_blocks_destination)
  have b4: "(\<forall>p e. (p, e) \<in> set (included_files target spec (max_size a)) \<longrightarrow>
              \<not> output_at w (output_path a) (target_dir a) p) \<longrightarrow>
         ?bl = content_blocks w ?xs"
  proof
    assume "\<forall>p e. (p, e) \<in> set (included_files target spec (max_size a)) \<longrightarrow>
              \<not> output_at w (output_path a) (target_dir a) p"
    then have "\<not> output_at w (output_path a) (target_dir a) p" if "(p, e) \<in> set ?xs" for p e
      using that by auto
    with n show "?bl = content_blocks w ?xs"
      by (rule written_blocks_content_blocks)
  qed
  from l t doc cx s1 st s2 sub b1 b2 b3 b4 show ?thesis by blast
qed

theorem document_order_witness:
  "(\<exists>spec target ctx.
      load_ignore_spec ex_env ex_args = Inr spec \<and>
      open_dir ex_env (target_dir ex_args) = Inr target \<and>
      out_file (main ex_env ex_args) = Some (
        concat ctx @
        ''# Codebase Structure'' @ nl @ nl @ ''```'' @ nl @
        format_tree (build_directory_tree (resolved_name ex_env (target_dir ex_args)) [] target spec
                       (max_size ex_args)) [] True @
        ''```'' @ nl @ nl @
        ''# File Contents'' @ nl @ nl @
        concat (map (\<lambda>(p, c). file_block p c)
          (written_blocks ex_env ex_args
             (preamble ctx (build_directory_tree (resolved_name ex_env (target_dir ex_args)) []
                              target spec (max_size ex_args)))
             (sort_key fst (included_files target spec (max_size ex_args)))))) \<and>
      ctx = [''# Context Overview'' @ nl @ nl @ ''hello'' @ nl @ nl] \<and>
      sorted (map fst (written_blocks ex_env ex_args
         (preamble ctx (build_directory_tree (resolved_name ex_env (target_dir ex_args)) []
                          target spec (max_size ex_args)))
         (sort_key fst (included_files target spec (max_size ex_args)))))) \<and>
   out_file (main ex_env_here ex_defaults) = Some (
     ''# Codebase Structure'' @ nl @ nl @ ''```'' @ nl @
     format_tree (build_directory_tree ''work'' [] ex_here (\<lambda>p. False) 102400) [] True @
     ''```'' @ nl @ nl @
     ''# File Contents'' @ nl @ nl @
     file_block [''a.txt''] ''aaaaa'' @ file_block [''context.md''] [])"
proof (rule conjI)
  from document_order [OF ex_here_status] obtain spec target ctx where
    1: "load_ignore_spec ex_env_here ex_defaults = Inr spec"
      "open_dir ex_env_here (target_dir ex_defaults) = Inr target"
    and 2: "out_file (main ex_env_here ex_defaults) = Some (
        concat ctx @
        ''# Codebase Structure'' @ nl @ nl @ ''```'' @ nl @
        format_tree (build_directory_tree (resolved_name ex_env_here (target_dir ex_defaults)) []
                       target spec (max_size ex_defaults)) [] True @
        ''```'' @ nl @ nl @
        ''# File Contents'' @ nl @ nl @
        concat (map (\<lambda>(p, c). file_block p c)
          (written_blocks ex_env_here ex_defaults
             (preamble ctx (build_directory_tree
                (resolved_name ex_env_here (target_dir ex_defaults)) []
                target spec (max_size ex_defaults)))
             (sort_key fst (included_files target spec (max_size ex_defaults))))))"
    and 3: "case context_file ex_defaults of
         None \<Rightarrow> ctx = []
       | Some path \<Rightarrow>
           if path = [] then ctx = []
           else \<exists>bs txt.
                  (if path = output_path ex_defaults \<or>
                      same_file ex_env_here path (output_path ex_defaults)
                   then bs = [] else open_read ex_env_here path = Inr bs) \<and>
                  read_text ex_env_here bs = Some txt \<and>
                  ctx = [''# Context Overview'' @ nl @ nl @ txt @ nl @ nl]"
    by blast
  from 1 ex_here_load ex_here_dir have st: "spec = (\<lambda>p. False)" "target = ex_here"
    by simp_all
  from 3 have cx: "ctx = []"
    by (simp add: ex_defaults_def)
  have k: "resolved_name ex_env_here (target_dir ex_defaults) = ''work''"
    "max_size ex_defaults = 102400"
    by (simp_all add: ex_env_here_def ex_defaults_def)
  from 2 show "out_file (main ex_env_here ex_defaults) = Some (
     ''# Codebase Structure'' @ nl @ nl @ ''```'' @ nl @
     format_tree (build_directory_tree ''work'' [] ex_here (\<lambda>p. False) 102400) [] True @
     ''```'' @ nl @ nl @
     ''# File Contents'' @ nl @ nl @
     file_block [''a.txt''] ''aaaaa'' @ file_block [''context.md''] [])"
    unfolding st cx k ex_here_included ex_here_blocks by simp
next
  have o: "open_read ex_env ''ctx.md'' = Inr ''hello''"
    by (simp add: open_read_def ex_env_def)
  have r: "read_text ex_env ''hello'' = Some ''hello''"
    by (simp add: ex_env_def)
  have cf: "context_file ex_args = Some ''ctx.md''" "output_path ex_args = ''context.md''"
    "\<not> same_file ex_env p q" for p q
    by (simp_all add: ex_args_def ex_env_def)
  from document_order [OF ex_status] obtain spec target ctx where
    1: "load_ignore_spec ex_env ex_args = Inr spec"
      "open_dir ex_env (target_dir ex_args) = Inr target"
      "out_file (main ex_env ex_args) = Some (
        concat ctx @
        ''# Codebase Structure'' @ nl @ nl @ ''```'' @ nl @
        format_tree (build_directory_tree (resolved_name ex_env (target_dir ex_args)) [] target spec
                       (max_size ex_args)) [] True @
        ''```'' @ nl @ nl @
        ''# File Contents'' @ nl @ nl @
        concat (map (\<lambda>(p, c). file_block p c)
          (written_blocks ex_env ex_args
             (preamble ctx (build_directory_tree (resolved_name ex_env (target_dir ex_args)) []
                              target spec (max_size ex_args)))
             (sort_key fst (included_files target spec (max_size ex_args))))))"
    and 2: "case context_file ex_args of
         None \<Rightarrow> ctx = []
       | Some path \<Rightarrow>
           if path = [] then ctx = []
           else \<exists>bs txt.
                  (if path = output_path ex_args \<or> same_file ex_env path (output_path ex_args)
                   then bs = [] else open_read ex_env path = Inr bs) \<and>
                  read_text ex_env bs = Some txt \<and>
                  ctx = [''# Context Overview'' @ nl @ nl @ txt @ nl @ nl]"
    and 3: "sorted (map fst (written_blocks ex_env ex_args
         (preamble ctx (build_directory_tree (resolved_name ex_env (target_dir ex_args)) []
                          target spec (max_size ex_args)))
         (sort_key fst (included_files target spec (max_size ex_args)))))"
    by blast
  from 2 have "ctx = [''# Context Overview'' @ nl @ nl @ ''hello'' @ nl @ nl]"
    by (auto simp: cf o r)
  with 1 3 show "\<exists>spec target ctx.
      load_ignore_spec ex_env ex_args = Inr spec \<and>
      open_dir ex_env (target_dir ex_args) = Inr target \<and>
      out_file (main ex_env ex_args) = Some (
        concat ctx @
        ''# Codebase Structure'' @ nl @ nl @ ''```'' @ nl @
        format_tree (build_directory_tree (resolved_name ex_env (target_dir ex_args)) [] target spec
                       (max_size ex_args)) [] True @
        ''```'' @ nl @ nl @
        ''# File Contents'' @ nl @ nl @
        concat (map (\<lambda>(p, c). file_block p c)
          (written_blocks ex_env ex_args
             (preamble ctx (build_directory_tree (resolved_name ex_env (target_dir ex_args)) []
                              target spec (max_size ex_args)))
             (sort_key fst (included_files target spec (max_size ex_args)))))) \<and>
      ctx = [''# Context Overview'' @ nl @ nl @ ''hello'' @ nl @ nl] \<and>
      sorted (map fst (written_blocks ex_env ex_args
         (preamble ctx (build_directory_tree (resolved_name ex_env (target_dir ex_args)) []
                          target spec (max_size ex_args)))
         (sort_key fst (included_files target spec (max_size ex_args)))))"
    by blast
qed

section \<open>Determinism\<close>

text \<open>
  Claim C7. The outcome of a run, its status and the document it writes, is a function of
  the command line and of the entries the file system holds, not of the order in which
  directories list them: over a file system that holds the same entries at every path,
  listed in whatever order, and with everything else unchanged, the same arguments give
  the same outcome. This holds also when the destination is one of the collected files.
\<close>

theorem run_deterministic:
  assumes "\<forall>p. rel_option same_entries (lookup w p) (l p)"
  shows "main (w\<lparr>lookup := l\<rparr>) a = main w a"
proof -
  let ?v = "w\<lparr>lookup := l\<rparr>"
  from assms have rel: "rel_option same_entries (lookup w p) (lookup ?v p)" for p by simp
  have rf: "read_fails ?v = read_fails w" by simp
  have lo: "load_ignore_spec ?v a = load_ignore_spec w a"
    unfolding load_ignore_spec_def same_entries_open_read [OF rel rf]
    by (simp cong: sum.case_cong option.case_cong if_cong)
  have oc: "open_context ?v a p = open_context w a p" for p
    unfolding open_context_def same_entries_open_read [OF rel rf] by (simp add: visible_def)
  have c: "context_section ?v a = context_section w a"
    unfolding context_section_def oc
    by (simp cong: sum.case_cong option.case_cong if_cong)
  have rc: "read_collected ?v a out p e = read_collected w a out p e" for out p e
    by (simp add: read_collected_def visible_def)
  have sw: "stream_write ?v out s = stream_write w out s" for out s
    by (simp add: stream_write_def)
  have wf: "write_files ?v a out xs = write_files w a out xs" for out xs
    by (induction xs arbitrary: out) (auto simp: rc sw split: sum.splits)
  show ?thesis
  proof (cases "load_ignore_spec w a")
    case (Inl e)
    with lo show ?thesis by (simp add: main_def)
  next
    case (Inr spec)
    from Inr lo have l2: "load_ignore_spec ?v a = Inr spec" by simp
    from same_entries_open_dir [OF rel, of "target_dir a"]
    show ?thesis
    proof (elim disjE exE conjE)
      fix e assume "open_dir w (target_dir a) = Inl e" "open_dir ?v (target_dir a) = Inl e"
      with Inr l2 show ?thesis by (simp add: main_def)
    next
      fix d1 d2
      assume d: "open_dir w (target_dir a) = Inr d1" "open_dir ?v (target_dir a) = Inr d2"
        and s: "same_entries d1 d2"
      show ?thesis
      proof (cases "walk_fails w (target_dir a) \<or> \<not> writable w (output_path a)")
        case True
        with Inr l2 d show ?thesis by (auto simp: main_def Let_def)
      next
        case False
        then have k: "\<not> walk_fails w (target_dir a)" "writable w (output_path a)" by auto
        then have k2: "\<not> walk_fails ?v (target_dir a)" "writable ?v (output_path a)" by auto
        have nm: "resolved_name ?v = resolved_name w" "encodable ?v = encodable w"
          by simp_all
        have tr: "format_tree (build_directory_tree (resolved_name w (target_dir a)) [] d2 spec
                                 (max_size a)) [] True =
                  format_tree (build_directory_tree (resolved_name w (target_dir a)) [] d1 spec
                                 (max_size a)) [] True"
          by (rule same_entries_tree [OF s, symmetric])
        have pre: "preamble ctx (build_directory_tree (resolved_name w (target_dir a)) [] d2 spec
                                   (max_size a)) =
                   preamble ctx (build_directory_tree (resolved_name w (target_dir a)) [] d1 spec
                                   (max_size a))" for ctx
          by (simp add: preamble_def tr)
        have xs: "sort_key fst (included_files d2 spec (max_size a)) =
                  sort_key fst (included_files d1 spec (max_size a))"
          by (rule same_entries_included [OF s, symmetric])
        show ?thesis
          unfolding main_after_walk [OF l2 d(2) k2] main_after_walk [OF Inr d(1) k]
            c nm pre tr xs wf
          by (rule refl)
      qed
    qed
  qed
qed

theorem run_deterministic_witness:
  "main ex_env_reordered ex_args = main ex_env ex_args \<and>
   iterdir ex_target_reordered \<noteq> iterdir ex_target \<and>
   main (ex_env_here\<lparr>lookup := (lookup ex_env_here)(''.'' := Some (Dir (rev (iterdir ex_here))))\<rparr>)
     ex_defaults = main ex_env_here ex_defaults \<and>
   lstat_real ex_here [''context.md''] = Some (File ''old'') \<and>
   output_at ex_env_here (output_path ex_defaults) (target_dir ex_defaults) [''context.md'']"
proof (intro conjI)
  have "main (ex_env\<lparr>lookup := (lookup ex_env)(''proj'' := Some ex_target_reordered)\<rparr>) ex_args =
        main ex_env ex_args"
  proof (rule run_deterministic)
    show "\<forall>p. rel_option same_entries (lookup ex_env p)
                 (((lookup ex_env)(''proj'' := Some ex_target_reordered)) p)"
      using ex_same_entries
      by (simp add: ex_env_def same_entries_def)
  qed
  then show "main ex_env_reordered ex_args = main ex_env ex_args"
    by (simp add: ex_env_reordered_def)
  show "iterdir ex_target_reordered \<noteq> iterdir ex_target"
    by (simp add: iterdir_def ex_target_def ex_target_reordered_def)
  show "main (ex_env_here\<lparr>lookup := (lookup ex_env_here)(''.'' := Some (Dir (rev (iterdir ex_here))))\<rparr>)
     ex_defaults = main ex_env_here ex_defaults"
  proof (rule run_deterministic)
    show "\<forall>p. rel_option same_entries (lookup ex_env_here p)
                 (((lookup ex_env_here)(''.'' := Some (Dir (rev (iterdir ex_here))))) p)"
      by (simp add: ex_env_here_def same_entries_def ex_here_def iterdir_def)
  qed
  show "lstat_real ex_here [''context.md''] = Some (File ''old'')"
    by (simp add: ex_here_def)
  show "output_at ex_env_here (output_path ex_defaults) (target_dir ex_defaults) [''context.md'']"
    by (simp add: ex_env_here_def ex_defaults_def)
qed

end
